theory Spec2Isabelle
  imports Main "HOL-Library.Word"
begin

unbundle bit_operations_syntax

section \<open>Alignment table\<close>

text \<open>
  The alignment table of Compare.cpp is a \<^verbatim>\<open>std::vector<AlignmentPair>\<close>; each pair
  holds, for the main and for the sub view, a line number and a diff mask. The struct
  declarations live in a header outside the translated file, so the fields are the ones
  the code reads (\<^verbatim>\<open>main\<close>, \<^verbatim>\<open>sub\<close>, \<^verbatim>\<open>line\<close>,
  \<^verbatim>\<open>diffMask\<close>). Line numbers are C++ \<^verbatim>\<open>int\<close>, 32 bits wide on the plugin's
  platform; they are modelled as integers, and the sums that \<^verbatim>\<open>adjustAlignment\<close>
  stores or compares are taken modulo \<open>2 ^ 32\<close> into the range of \<^verbatim>\<open>int\<close>
  (\<open>int32\<close>), as the compiled two's complement addition does. Vector indices are never negative in the code below and are modelled as
  naturals; \<^verbatim>\<open>operator[]\<close> outside the vector is undefined behaviour and is modelled
  as the error \<open>OutOfBounds\<close>.
\<close>

record AlignmentViewData =
  line :: int
  diffMask :: int

record AlignmentPair =
  main :: AlignmentViewData
  sub :: AlignmentViewData

type_synonym AlignmentInfo_t = "AlignmentPair list"

datatype error = OutOfBounds

definition INT_MIN :: int where
  "INT_MIN = - 2147483648"

definition INT_MAX :: int where
  "INT_MAX = 2147483647"

text \<open>The value of a 32-bit \<^verbatim>\<open>int\<close> addition: the sum, wrapped into \<open>[INT_MIN, INT_MAX]\<close>.\<close>

definition int32 :: "int \<Rightarrow> int" where
  "int32 x = (x + 2147483648) mod 4294967296 - 2147483648"

text \<open>The values a C++ \<^verbatim>\<open>int\<close> can hold.\<close>

definition isInt :: "int \<Rightarrow> bool" where
  "isInt x = (INT_MIN \<le> x \<and> x \<le> INT_MAX)"

text \<open>
  View ids are C++ \<^verbatim>\<open>int\<close>; \<^verbatim>\<open>MAIN_VIEW\<close> and \<^verbatim>\<open>SUB_VIEW\<close> are the
  constants 0 and 1 of the editor's plugin interface, and -1 stands for no view.
\<close>

definition MAIN_VIEW :: int where
  "MAIN_VIEW = 0"

definition SUB_VIEW :: int where
  "SUB_VIEW = 1"

text \<open>The pointer to member \<^verbatim>\<open>AlignmentPair::*alignView\<close>: chosen by the view id.\<close>

definition alignView :: "int \<Rightarrow> AlignmentPair \<Rightarrow> AlignmentViewData" where
  "alignView view = (if view = MAIN_VIEW then main else sub)"

definition addLine :: "int \<Rightarrow> int \<Rightarrow> AlignmentPair \<Rightarrow> AlignmentPair" where
  "addLine view offset e =
     (if view = MAIN_VIEW then e\<lparr>main := (main e)\<lparr>line := int32 (line (main e) + offset)\<rparr>\<rparr>
      else e\<lparr>sub := (sub e)\<lparr>line := int32 (line (sub e) + offset)\<rparr>\<rparr>)"

definition at :: "'a list \<Rightarrow> nat \<Rightarrow> error + 'a" where
  "at xs i = (if i < length xs then Inr (xs ! i) else Inl OutOfBounds)"

text \<open>
  \<^verbatim>\<open>getAlignmentIdxAfter\<close>, first loop:
  \<^verbatim>\<open>for (int i = size / 2; i; i /= 2) if ((alignInfo[idx + i].*pView).line < line) idx += i;\<close>
\<close>

function gallop ::
  "(AlignmentPair \<Rightarrow> AlignmentViewData) \<Rightarrow> AlignmentInfo_t \<Rightarrow> int \<Rightarrow> nat \<Rightarrow> nat \<Rightarrow> error + nat"
where
  "gallop pView alignInfo ln idx i =
     (if i = 0 then Inr idx
      else (case at alignInfo (idx + i) of
              Inl e \<Rightarrow> Inl e
            | Inr a \<Rightarrow>
                gallop pView alignInfo ln (if line (pView a) < ln then idx + i else idx) (i div 2)))"
  by pat_completeness auto
termination
  by (relation "measure (\<lambda>(pView, alignInfo, ln, idx, i). i)") auto

declare gallop.simps [simp del]

text \<open>
  Second loop:
  \<^verbatim>\<open>while ((idx < size) && ((alignInfo[idx].*pView).line < line)) ++idx;\<close>
\<close>

function scan ::
  "(AlignmentPair \<Rightarrow> AlignmentViewData) \<Rightarrow> AlignmentInfo_t \<Rightarrow> int \<Rightarrow> nat \<Rightarrow> error + nat"
where
  "scan pView alignInfo ln idx =
     (if idx < length alignInfo then
        (case at alignInfo idx of
           Inl e \<Rightarrow> Inl e
         | Inr a \<Rightarrow> if line (pView a) < ln then scan pView alignInfo ln (idx + 1) else Inr idx)
      else Inr idx)"
  by pat_completeness auto
termination
  by (relation "measure (\<lambda>(pView, alignInfo, ln, idx). length alignInfo - idx)") auto

declare scan.simps [simp del]

definition getAlignmentIdxAfter ::
  "(AlignmentPair \<Rightarrow> AlignmentViewData) \<Rightarrow> AlignmentInfo_t \<Rightarrow> int \<Rightarrow> error + nat"
where
  "getAlignmentIdxAfter pView alignInfo ln =
     (case gallop pView alignInfo ln 0 (length alignInfo div 2) of
        Inl e \<Rightarrow> Inl e
      | Inr idx \<Rightarrow> scan pView alignInfo ln idx)"

text \<open>
  \<^verbatim>\<open>ComparedPair::adjustAlignment\<close>. The loop looking for the end of the erased block:
  \<^verbatim>\<open>while ((endIdx < size) && (line > (alignInfo[endIdx].*alignView).line + offset)) ++endIdx;\<close>
\<close>

function findEnd :: "int \<Rightarrow> AlignmentInfo_t \<Rightarrow> int \<Rightarrow> int \<Rightarrow> nat \<Rightarrow> error + nat" where
  "findEnd view alignInfo ln offset endIdx =
     (if endIdx < length alignInfo then
        (case at alignInfo endIdx of
           Inl e \<Rightarrow> Inl e
         | Inr a \<Rightarrow>
             if ln > int32 (line (alignView view a) + offset)
             then findEnd view alignInfo ln offset (endIdx + 1)
             else Inr endIdx)
      else Inr endIdx)"
  by pat_completeness auto
termination
  by (relation "measure (\<lambda>(view, alignInfo, ln, offset, endIdx). length alignInfo - endIdx)") auto

declare findEnd.simps [simp del]

text \<open>\<^verbatim>\<open>alignInfo.erase(alignInfo.begin() + startIdx, alignInfo.begin() + endIdx)\<close>\<close>

definition erase :: "nat \<Rightarrow> nat \<Rightarrow> 'a list \<Rightarrow> 'a list" where
  "erase startIdx endIdx xs = take startIdx xs @ drop endIdx xs"

text \<open>
  \<^verbatim>\<open>for (int i = startIdx; i < size; ++i) (alignInfo[i].*alignView).line += offset;\<close>
\<close>

function shiftFrom :: "int \<Rightarrow> int \<Rightarrow> nat \<Rightarrow> AlignmentInfo_t \<Rightarrow> error + AlignmentInfo_t" where
  "shiftFrom view offset i alignInfo =
     (if i < length alignInfo then
        (case at alignInfo i of
           Inl e \<Rightarrow> Inl e
         | Inr a \<Rightarrow> shiftFrom view offset (i + 1) (alignInfo[i := addLine view offset a]))
      else Inr alignInfo)"
  by pat_completeness auto
termination
  by (relation "measure (\<lambda>(view, offset, i, alignInfo). length alignInfo - i)") auto

declare shiftFrom.simps [simp del]

definition adjustAlignment ::
  "int \<Rightarrow> int \<Rightarrow> int \<Rightarrow> AlignmentInfo_t \<Rightarrow> error + AlignmentInfo_t"
where
  "adjustAlignment view ln offset alignInfo =
     (case getAlignmentIdxAfter (alignView view) alignInfo ln of
        Inl e \<Rightarrow> Inl e
      | Inr startIdx \<Rightarrow>
          if startIdx < length alignInfo then
            (case at alignInfo startIdx of
               Inl e \<Rightarrow> Inl e
             | Inr a \<Rightarrow>
                 if line (alignView view a) \<ge> ln then
                   (if offset < 0 then
                      (case findEnd view alignInfo ln offset startIdx of
                         Inl e \<Rightarrow> Inl e
                       | Inr endIdx \<Rightarrow>
                           shiftFrom view offset startIdx
                             (if endIdx > startIdx then erase startIdx endIdx alignInfo
                              else alignInfo))
                    else shiftFrom view offset startIdx alignInfo)
                 else Inr alignInfo)
          else Inr alignInfo)"


section \<open>Editor state seen by the change tracker\<close>

text \<open>
  The text views are Scintilla widgets outside the repository. The tracker reads and writes
  their per-line marker bitmaps and reads their line count; a view is modelled by exactly
  that. Marker bitmaps are bit sets and are modelled as 32-bit words. A line outside the
  document carries no markers and ignores marker writes.
  The settings object \<^verbatim>\<open>Settings\<close> is declared outside the translated file; the
  flags read by the code modelled here are kept. \<^verbatim>\<open>GetTickCount\<close> returns the low 32
  bits (a \<^verbatim>\<open>DWORD\<close>) of the milliseconds elapsed since system start, which the model
  keeps as the natural number \<open>clock\<close>.
\<close>

record sci_view =
  lineCount :: int
  lineMarkers :: "int \<Rightarrow> 32 word"
  lineFromPosition :: "int \<Rightarrow> int"

record UserSettings =
  RecompareOnChange :: bool
  ShowOnlyDiffs :: bool
  UseNavBar :: bool
  FollowingCaret :: bool

record world =
  Settings :: UserSettings
  views :: "int \<Rightarrow> sci_view"
  clock :: nat

definition GetTickCount :: "world \<Rightarrow> 32 word" where
  "GetTickCount w = word_of_nat (clock w)"

definition SCI_GETLINECOUNT :: "world \<Rightarrow> int \<Rightarrow> int" where
  "SCI_GETLINECOUNT w view = lineCount (views w view)"

definition SCI_LINEFROMPOSITION :: "world \<Rightarrow> int \<Rightarrow> int \<Rightarrow> int" where
  "SCI_LINEFROMPOSITION w view pos = lineFromPosition (views w view) pos"

definition SCI_MARKERGET :: "world \<Rightarrow> int \<Rightarrow> int \<Rightarrow> 32 word" where
  "SCI_MARKERGET w view ln =
     (if 0 \<le> ln \<and> ln < lineCount (views w view) then lineMarkers (views w view) ln else 0)"

definition setLineMarkers :: "int \<Rightarrow> int \<Rightarrow> 32 word \<Rightarrow> world \<Rightarrow> world" where
  "setLineMarkers view ln m w =
     (if 0 \<le> ln \<and> ln < lineCount (views w view)
      then w\<lparr>views := (views w)(view := (views w view)\<lparr>lineMarkers := (lineMarkers (views w view))(ln := m)\<rparr>)\<rparr>
      else w)"

definition SCI_MARKERADDSET :: "int \<Rightarrow> int \<Rightarrow> 32 word \<Rightarrow> world \<Rightarrow> world" where
  "SCI_MARKERADDSET view ln markerSet w = setLineMarkers view ln (SCI_MARKERGET w view ln OR markerSet) w"

text \<open>
  Modelled from the spec: \<^verbatim>\<open>getMarkers\<close>, \<^verbatim>\<open>setMarkers\<close> and \<^verbatim>\<open>clearMarks\<close> are
  declared in NppHelpers.h and their bodies are missing from the translated file, as is the
  constant \<^verbatim>\<open>MARKER_MASK_ALL\<close>, which is taken as a parameter. The spec says that
  \<^verbatim>\<open>push\<close> captures the per-line markers of \<open>[startLine, startLine + length)\<close>,
  or clears them, and that \<^verbatim>\<open>pop\<close> restores the captured markers at
  \<open>startLine\<close>: \<open>getMarkers\<close> returns one bitmap per line of the range, restricted
  to the mask; \<open>clearMarks\<close> removes the bits of the mask from a line; \<open>setMarkers\<close>
  clears each line of the range and adds the stored bitmap.
\<close>

definition getMarkers :: "world \<Rightarrow> int \<Rightarrow> int \<Rightarrow> int \<Rightarrow> 32 word \<Rightarrow> 32 word list" where
  "getMarkers w view startLine len markMask =
     map (\<lambda>i. SCI_MARKERGET w view (startLine + int i) AND markMask) [0..<nat len]"

definition clearMarks :: "32 word \<Rightarrow> int \<Rightarrow> int \<Rightarrow> world \<Rightarrow> world" where
  "clearMarks MARKER_MASK_ALL view ln w =
     setLineMarkers view ln (SCI_MARKERGET w view ln AND NOT MARKER_MASK_ALL) w"

primrec clearMarksRange :: "32 word \<Rightarrow> int \<Rightarrow> int \<Rightarrow> nat \<Rightarrow> world \<Rightarrow> world" where
  "clearMarksRange MARKER_MASK_ALL view startLine 0 w = w"
| "clearMarksRange MARKER_MASK_ALL view startLine (Suc n) w =
     clearMarksRange MARKER_MASK_ALL view (startLine + 1) n (clearMarks MARKER_MASK_ALL view startLine w)"

primrec setMarkers :: "32 word \<Rightarrow> int \<Rightarrow> int \<Rightarrow> 32 word list \<Rightarrow> world \<Rightarrow> world" where
  "setMarkers MARKER_MASK_ALL view startLine [] w = w"
| "setMarkers MARKER_MASK_ALL view startLine (m # ms) w =
     setMarkers MARKER_MASK_ALL view (startLine + 1) ms
       (let w1 = clearMarks MARKER_MASK_ALL view startLine w
        in if m \<noteq> 0 then SCI_MARKERADDSET view startLine m w1 else w1)"

section \<open>Change tracker\<close>

definition SC_MOD_DELETETEXT :: "32 word" where "SC_MOD_DELETETEXT = 0x2"
definition SC_PERFORMED_USER :: "32 word" where "SC_PERFORMED_USER = 0x10"
definition SC_PERFORMED_UNDO :: "32 word" where "SC_PERFORMED_UNDO = 0x20"
definition SC_PERFORMED_REDO :: "32 word" where "SC_PERFORMED_REDO = 0x40"

type_synonym undo_ptr = "nat option"

record DeletedSection =
  startLine :: int
  lineReplace :: bool
  restoreAction :: "32 word"
  markers :: "32 word list"
  nextLineMarker :: "32 word"
  undoInfo :: undo_ptr

text \<open>The constructor \<^verbatim>\<open>DeletedSection(action, line, undo)\<close>.\<close>

definition newDeletedSection :: "32 word \<Rightarrow> int \<Rightarrow> undo_ptr \<Rightarrow> DeletedSection" where
  "newDeletedSection action ln undo =
     \<lparr>startLine = ln, lineReplace = False,
      restoreAction = (if action = SC_PERFORMED_UNDO then SC_PERFORMED_REDO else SC_PERFORMED_UNDO),
      markers = [], nextLineMarker = 0, undoInfo = undo\<rparr>"

record DeletedSectionsList =
  lastPushTimeMark :: "32 word"
  sections :: "DeletedSection list"

definition push ::
  "32 word \<Rightarrow> int \<Rightarrow> 32 word \<Rightarrow> int \<Rightarrow> int \<Rightarrow> undo_ptr \<Rightarrow> DeletedSectionsList \<Rightarrow> world
     \<Rightarrow> bool \<times> DeletedSectionsList \<times> world"
where
  "push MARKER_MASK_ALL view currAction startLn len undo t w =
     (if len < 1 then (False, t, w)
      else if sections t \<noteq> [] \<and> restoreAction (last (sections t)) = currAction
                \<and> lineReplace (last (sections t)) then (False, t, w)
      else
        (let delSection = newDeletedSection currAction startLn undo;
             delSection' =
               (if \<not> RecompareOnChange (Settings w) then
                  delSection
                    \<lparr>markers := getMarkers w view startLn len MARKER_MASK_ALL,
                     nextLineMarker :=
                       (if startLn + len < SCI_GETLINECOUNT w view
                        then SCI_MARKERGET w view (startLn + len) AND MARKER_MASK_ALL
                        else nextLineMarker delSection)\<rparr>
                else delSection);
             w' =
               (if \<not> RecompareOnChange (Settings w) then w
                else clearMarksRange MARKER_MASK_ALL view startLn (nat len) w)
         in (True,
             t\<lparr>sections := sections t @ [delSection'], lastPushTimeMark := GetTickCount w'\<rparr>,
             w')))"

definition pop ::
  "32 word \<Rightarrow> int \<Rightarrow> 32 word \<Rightarrow> int \<Rightarrow> DeletedSectionsList \<Rightarrow> world
     \<Rightarrow> undo_ptr \<times> DeletedSectionsList \<times> world"
where
  "pop MARKER_MASK_ALL view currAction startLn t w =
     (if sections t = [] then (None, t, w)
      else
        (let lst = last (sections t) in
         if startLine lst \<noteq> startLn then (None, t, w)
         else if restoreAction lst \<noteq> currAction then
           (None,
            (if GetTickCount w < lastPushTimeMark t + 40
             then t\<lparr>sections := butlast (sections t) @ [lst\<lparr>lineReplace := True\<rparr>]\<rparr>
             else t),
            w)
         else
           (let w' =
                  (if markers lst \<noteq> [] then
                     (let w1 = setMarkers MARKER_MASK_ALL view (startLine lst) (markers lst) w
                      in if nextLineMarker lst \<noteq> 0 then
                           SCI_MARKERADDSET view (startLn + int (length (markers lst)))
                             (nextLineMarker lst)
                             (clearMarks MARKER_MASK_ALL view
                                (startLn + int (length (markers lst))) w1)
                         else w1)
                   else w)
            in (undoInfo lst, t\<lparr>sections := butlast (sections t)\<rparr>, w'))))"

section \<open>Deferred work\<close>

text \<open>
  Modelled from the spec: the class \<^verbatim>\<open>DelayedWork\<close> (\<^verbatim>\<open>post\<close>, \<^verbatim>\<open>cancel\<close>) is
  declared outside the translated file. The spec's scheduling discipline: posting a new
  deferred action of the same kind cancels and replaces any pending instance; cancellation
  is immediate and idempotent, and cancelling an inactive schedule is a no-op. A
  \<^verbatim>\<open>DelayedWork\<close> object is the list of the delays, in milliseconds, of its
  outstanding timers.
\<close>

type_synonym DelayedWork = "int list"

definition cancel :: "DelayedWork \<Rightarrow> DelayedWork" where
  "cancel d = []"

definition post :: "int \<Rightarrow> DelayedWork \<Rightarrow> DelayedWork" where
  "post delay d = cancel d @ [delay]"

section \<open>The compared pair and the modification handler\<close>

text \<open>
  The members of \<^verbatim>\<open>ComparedPair\<close>, \<^verbatim>\<open>CompareOptions\<close> and
  \<^verbatim>\<open>CompareSummary\<close> that \<^verbatim>\<open>onSciModified\<close> reads or writes. The two
  \<^verbatim>\<open>ComparedFile\<close> objects are reached through \<^verbatim>\<open>getFileByViewId\<close>, so their
  trackers are indexed by the view id. \<^verbatim>\<open>UndoData\<close> objects live in a heap, a
  store from addresses to objects; \<^verbatim>\<open>std::make_shared\<close> takes the next unused
  address. A shared pointer keeps its object alive, so every pointer held by a tracker reads
  an object of the store.
  User-interface calls that do not feed back into the code modelled here are recorded as
  events, in the order of the calls.
  The reentrancy guard \<^verbatim>\<open>notificationsLock\<close> is not modelled: a handler runs to its
  end before the next notification is handled.
\<close>

record UndoData =
  alignment :: AlignmentInfo_t
  selection :: "int \<times> int"
  otherViewMarks :: "32 word list"


record ComparedPair =
  selectionCompare :: bool
  selections :: "int \<Rightarrow> int \<times> int"
  alignmentInfo :: AlignmentInfo_t
  compareDirty :: bool
  manuallyChanged :: bool
  inEqualizeMode :: nat
  autoUpdateDelay :: int
  deletedSections :: "int \<Rightarrow> DeletedSectionsList"

record SCNotification =
  hwndFrom :: int
  modificationType :: "32 word"
  position :: int
  textLength :: int
  linesAdded :: int

datatype ui_event =
    ShowRange int int nat
  | AnnotationClearAll int
  | NavDlgShow
  | SetStatus
  | ClearComparePair
  | CenterAt int int
  | BlinkLine int int
  | SetFocus int
  | SCI_SETEMPTYSELECTION int int
  | SCI_SETFIRSTVISIBLELINE int int
  | UpdateWindow int
  | NavDlgUpdate
  | ShowBlankAdjacentArrowMark int int bool
  | FlashWindowEx

record plugin =
  editor :: world
  cmpPair :: "ComparedPair option"
  notReverting :: bool
  delayedAlignment :: DelayedWork
  delayedUpdate :: DelayedWork
  copiedSectionMarks :: "32 word list"
  selectionAutoRecompare :: bool
  heap :: "nat \<Rightarrow> UndoData"
  heapNext :: nat
  ui :: "ui_event list"

text \<open>
  Modelled from the spec: \<^verbatim>\<open>getOtherViewId\<close> is a helper of NppHelpers.h whose body
  is missing from the translated file; the spec has exactly two views, main and sub, and
  the other view of one is the other one.
\<close>

definition getOtherViewId :: "int \<Rightarrow> int" where
  "getOtherViewId view = (if view = MAIN_VIEW then SUB_VIEW else MAIN_VIEW)"

definition setCompareDirty :: "ComparedPair \<Rightarrow> ComparedPair" where
  "setCompareDirty p =
     p\<lparr>compareDirty := True,
       manuallyChanged := (if inEqualizeMode p = 0 then True else manuallyChanged p)\<rparr>"




text \<open>\<^verbatim>\<open>// Set compare dirty flag if needed\<close>: the pair and \<^verbatim>\<open>updateStatus\<close>.\<close>

definition dirtyOnChange ::
  "UserSettings \<Rightarrow> SCNotification \<Rightarrow> int \<Rightarrow> bool \<Rightarrow> undo_ptr \<Rightarrow> int \<Rightarrow> ComparedPair
     \<Rightarrow> ComparedPair \<times> bool"
where
  "dirtyOnChange S n view notRev undo startLn p =
     (if \<not> RecompareOnChange S \<and> notRev \<and> undo = None then
        (if \<not> compareDirty p \<or> (inEqualizeMode p = 0 \<and> \<not> manuallyChanged p) then
           (if \<not> selectionCompare p then (setCompareDirty p, True)
            else
              (let hit1 = (startLn \<ge> fst (selections p view) \<and> startLn \<le> snd (selections p view));
                   p1 = (if hit1 then setCompareDirty p else p);
                   startLn2 = startLn + (linesAdded n + 1)
               in if \<not> hit1 \<and> linesAdded n \<noteq> 0 \<and> (modificationType n AND SC_MOD_DELETETEXT) \<noteq> 0
                  then (if startLn2 \<ge> fst (selections p1 view) \<and> startLn2 \<le> snd (selections p1 view)
                        then (setCompareDirty p1, True) else (p1, False))
                  else (p1, hit1)))
         else (p, False))
      else (p, False))"

text \<open>\<^verbatim>\<open>// Adjust selections if in selection compare\<close>: the pair and \<^verbatim>\<open>selectionsAdjusted\<close>.\<close>

definition adjustSelections ::
  "SCNotification \<Rightarrow> int \<Rightarrow> int \<Rightarrow> bool \<Rightarrow> ComparedPair \<Rightarrow> ComparedPair \<times> bool"
where
  "adjustSelections n view startLn selAdj p =
     (let endLn = startLn + \<bar>linesAdded n\<bar> - 1;
          sel = selections p view;
          first' = (if fst sel > startLn then
                      (if linesAdded n > 0 then fst sel + linesAdded n
                       else if fst sel > endLn then fst sel + linesAdded n
                       else fst sel - (fst sel - startLn))
                    else fst sel);
          adj1 = (if fst sel > startLn then True else selAdj);
          startLn' = (if inEqualizeMode p \<noteq> 0 \<and> snd sel = startLn - 1 \<and> linesAdded n > 0
                      then startLn - 1 else startLn);
          second' = (if snd sel \<ge> startLn' then
                       (if linesAdded n > 0 then snd sel + linesAdded n
                        else if snd sel \<ge> endLn then snd sel + linesAdded n
                        else snd sel - (snd sel - startLn' + 1))
                     else snd sel);
          adj2 = (if snd sel \<ge> startLn' then True else adj1)
      in (p\<lparr>selections := (selections p)(view := (first', second'))\<rparr>, adj2))"



text \<open>
  The head of \<^verbatim>\<open>DelayedAlign::operator()\<close>, the deferred pass posted by
  \<^verbatim>\<open>onSciPaint\<close>: with a pending \<^verbatim>\<open>autoUpdateDelay\<close> it posts the delayed
  update and returns. \<open>None\<close> stands for the alignment pass that follows otherwise,
  which is not modelled.
\<close>

definition onSciPaint :: "plugin \<Rightarrow> plugin" where
  "onSciPaint s = s\<lparr>delayedAlignment := post 30 (delayedAlignment s)\<rparr>"


section \<open>What navigation and scroll synchronisation read from the editor\<close>

text \<open>
  \<^verbatim>\<open>syncViews\<close>, \<^verbatim>\<open>jumpToNextChange\<close> and \<^verbatim>\<open>jumpToChange\<close> only query the
  editor and then scroll, blink or move the caret. The queries are Scintilla messages and
  helpers of NppHelpers.h, none of which is part of the translated file; their answers in
  the state at the call are taken as parameters, one field per message or helper (marker
  searches and \<^verbatim>\<open>isLineMarked\<close> are always called with \<^verbatim>\<open>MARKER_MASK_LINE\<close>,
  which is folded into the answer). Scrolling, blinking, focusing and moving the caret are
  recorded as events; the queries made after such a call in the same function (caret line,
  annotations, wrapping, markers) do not depend on the scroll position or the focus.
\<close>

record screen =
  doc :: world
  hasCompare :: bool
  findUniqueMode :: bool
  currentViewId :: int
  SCI_MARKERNEXT :: "int \<Rightarrow> int \<Rightarrow> int"
  SCI_MARKERPREVIOUS :: "int \<Rightarrow> int \<Rightarrow> int"
  SCI_VISIBLEFROMDOCLINE :: "int \<Rightarrow> int \<Rightarrow> int"
  SCI_DOCLINEFROMVISIBLE :: "int \<Rightarrow> int \<Rightarrow> int"
  getFirstVisibleLine :: "int \<Rightarrow> int"
  getFirstLine :: "int \<Rightarrow> int"
  getLastLine :: "int \<Rightarrow> int"
  getCurrentLine :: "int \<Rightarrow> int"
  getLineStart :: "int \<Rightarrow> int \<Rightarrow> int"
  getLineEnd :: "int \<Rightarrow> int \<Rightarrow> int"
  isSelection :: "int \<Rightarrow> bool"
  isLineMarked :: "int \<Rightarrow> int \<Rightarrow> bool"
  isLineAnnotated :: "int \<Rightarrow> int \<Rightarrow> bool"
  isLineWrapped :: "int \<Rightarrow> int \<Rightarrow> bool"
  isLineVisible :: "int \<Rightarrow> int \<Rightarrow> bool"
  isAdjacentAnnotation :: "int \<Rightarrow> int \<Rightarrow> bool \<Rightarrow> bool"
  isVisibleAdjacentAnnotation :: "int \<Rightarrow> int \<Rightarrow> bool \<Rightarrow> bool"
  otherViewMatchingLine :: "int \<Rightarrow> int \<Rightarrow> int"
  getNextUnmarkedLine :: "int \<Rightarrow> int \<Rightarrow> int"
  getPrevUnmarkedLine :: "int \<Rightarrow> int \<Rightarrow> int"

section \<open>Scroll synchronisation\<close>

text \<open>\<^verbatim>\<open>syncViews\<close>: the line the other view is scrolled to, or -1.\<close>

definition syncLine :: "screen \<Rightarrow> int \<Rightarrow> int" where
  "syncLine e biasView =
     (let otherView = getOtherViewId biasView;
          firstVisible = getFirstVisibleLine e biasView;
          otherFirstVisible = getFirstVisibleLine e otherView;
          firstLine = SCI_DOCLINEFROMVISIBLE e biasView firstVisible
      in if firstLine < SCI_GETLINECOUNT (doc e) biasView - 1 then
           (if firstVisible \<noteq> otherFirstVisible then
              (let otherLastVisible =
                     SCI_VISIBLEFROMDOCLINE e otherView (SCI_GETLINECOUNT (doc e) otherView - 1)
               in if firstVisible > otherLastVisible then otherLastVisible else firstVisible)
            else - 1)
         else if firstVisible > otherFirstVisible then firstVisible
         else - 1)"

definition syncViews :: "screen \<Rightarrow> int \<Rightarrow> ui_event list" where
  "syncViews e biasView =
     (let otherView = getOtherViewId biasView;
          otherLine = syncLine e biasView;
          scroll = (if otherLine \<ge> 0
                    then [SCI_SETFIRSTVISIBLELINE otherView otherLine, UpdateWindow otherView]
                    else []);
          caret =
            (if FollowingCaret (Settings (doc e)) \<and> biasView = currentViewId e then
               (let ln = getCurrentLine e biasView;
                    otherLine2 = otherViewMatchingLine e biasView ln
                in if otherLine2 \<noteq> getCurrentLine e otherView \<and> \<not> isSelection e otherView then
                     [SCI_SETEMPTYSELECTION otherView
                        (if isLineAnnotated e otherView otherLine2 \<and> isLineWrapped e otherView otherLine2
                         then getLineEnd e otherView otherLine2
                         else getLineStart e otherView otherLine2),
                      UpdateWindow otherView]
                   else [])
             else [])
      in scroll @ caret @ [NavDlgUpdate])"

section \<open>Navigation\<close>

text \<open>
  \<^verbatim>\<open>jumpToNextChange\<close>, in the order of the source: the blank diff next to the bias
  line, the start lines of a corner search, the marker search in both views, the choice of
  the view, the step over an annotation when moving up, the blink after a wrap, centring,
  the caret move, the blink. The result is the returned pair and the events.
\<close>

definition nextMarkers :: "screen \<Rightarrow> int \<Rightarrow> int \<Rightarrow> bool \<Rightarrow> int \<times> int" where
  "nextMarkers e mainStartLine0 subStartLine0 down =
     (let isCornerDiff = (mainStartLine0 < 0 \<and> subStartLine0 < 0);
          mainStartLine = (if isCornerDiff
                           then (if down then 0 else SCI_GETLINECOUNT (doc e) MAIN_VIEW - 1)
                           else mainStartLine0);
          subStartLine = (if isCornerDiff
                          then (if down then 0 else SCI_GETLINECOUNT (doc e) SUB_VIEW - 1)
                          else subStartLine0);
          mainNext = (if down then SCI_MARKERNEXT e MAIN_VIEW mainStartLine
                      else SCI_MARKERPREVIOUS e MAIN_VIEW mainStartLine);
          subNext = (if down then SCI_MARKERNEXT e SUB_VIEW subStartLine
                     else SCI_MARKERPREVIOUS e SUB_VIEW subStartLine)
      in (if mainNext = mainStartLine \<and> \<not> isCornerDiff then - 1 else mainNext,
          if subNext = subStartLine \<and> \<not> isCornerDiff then - 1 else subNext))"

definition jumpTarget ::
  "screen \<Rightarrow> int \<Rightarrow> int \<Rightarrow> int \<Rightarrow> bool \<Rightarrow> (int \<times> int) \<times> ui_event list"
where
  "jumpTarget e view0 line0 otherLine down =
     (let otherView = getOtherViewId view0;
          S = Settings (doc e);
          switchViews =
            (if line0 < 0 then True
             else if otherLine \<ge> 0 then
               (let visibleLine = SCI_VISIBLEFROMDOCLINE e view0 line0;
                    otherVisibleLine = SCI_VISIBLEFROMDOCLINE e otherView otherLine
                in if down then otherVisibleLine < visibleLine else otherVisibleLine > visibleLine)
             else False);
          view = (if switchViews \<and> findUniqueMode e then otherView else view0);
          line1 = (if switchViews
                   then (if findUniqueMode e then otherLine
                         else otherViewMatchingLine e otherView otherLine)
                   else line0);
          focus = (if findUniqueMode e \<and> FollowingCaret S then [SetFocus view] else []);
          line2 = (if \<not> down \<and> \<not> ShowOnlyDiffs S \<and> isLineAnnotated e view line1
                   then line1 + 1 else line1)
      in ((view, line2), focus))"

definition blinkAfterWrap :: "screen \<Rightarrow> int \<Rightarrow> int \<Rightarrow> bool \<Rightarrow> int option" where
  "blinkAfterWrap e view ln down =
     (let edgeLine = (if down then getLastLine e view else getFirstLine e view);
          currentLine = (if FollowingCaret (Settings (doc e)) then getCurrentLine e view else edgeLine)
      in if (down \<and> currentLine \<le> ln) \<or> (\<not> down \<and> currentLine \<ge> ln) then
           (if isLineVisible e view ln then Some ln
            else if (down \<and> edgeLine > ln) \<or> (\<not> down \<and> edgeLine < ln) then None
            else Some edgeLine)
         else None)"

definition finishJump ::
  "screen \<Rightarrow> int \<Rightarrow> int \<Rightarrow> bool \<Rightarrow> bool \<Rightarrow> (int \<times> int) \<times> ui_event list"
where
  "finishJump e view ln down doNotBlink0 =
     (let S = Settings (doc e);
          center = (\<not> isLineVisible e view ln
                     \<or> (\<not> isLineMarked e view ln \<and> isAdjacentAnnotation e view ln down
                          \<and> \<not> isVisibleAdjacentAnnotation e view ln down));
          moveCaret = (FollowingCaret S \<and> ln \<noteq> getCurrentLine e view);
          pos = (if down \<and> (isLineAnnotated e view ln \<and> isLineWrapped e view ln
                              \<and> \<not> isLineMarked e view ln)
                 then getLineEnd e view ln else getLineStart e view ln);
          doNotBlink = (doNotBlink0 \<or> center \<or> moveCaret);
          ln' = (if moveCaret then - 1 else ln)
      in ((view, ln'),
          (if center then [CenterAt view ln] else [])
          @ (if moveCaret then [SCI_SETEMPTYSELECTION view pos] else [])
          @ (if \<not> doNotBlink then [BlinkLine view ln'] else [])))"

definition jumpToNextChange ::
  "screen \<Rightarrow> int \<Rightarrow> int \<Rightarrow> bool \<Rightarrow> bool \<Rightarrow> bool \<Rightarrow> (int \<times> int) \<times> ui_event list"
where
  "jumpToNextChange e mainStartLine subStartLine down goToCornerDiff doNotBlink =
     (if \<not> hasCompare e then ((- 1, - 1), [])
      else
        (let view0 = currentViewId e;
             otherView = getOtherViewId view0;
             edgeLine = (if down then getLastLine e view0 else getFirstLine e view0);
             currentLine = (if FollowingCaret (Settings (doc e)) then getCurrentLine e view0
                            else edgeLine)
         in if \<not> findUniqueMode e \<and> \<not> goToCornerDiff
                 \<and> \<not> isLineMarked e view0 currentLine
                 \<and> isAdjacentAnnotation e view0 currentLine down
                 \<and> \<not> isVisibleAdjacentAnnotation e view0 currentLine down
                 \<and> isLineMarked e otherView (otherViewMatchingLine e view0 currentLine + 1)
            then ((view0, currentLine), [CenterAt view0 currentLine])
            else
              (let isCornerDiff = (mainStartLine < 0 \<and> subStartLine < 0);
                   nxt = nextMarkers e mainStartLine subStartLine down;
                   line0 = (if view0 = MAIN_VIEW then fst nxt else snd nxt);
                   otherLine = (if view0 = MAIN_VIEW then snd nxt else fst nxt)
               in if line0 < 0 \<and> otherLine < 0 then ((- 1, - 1), [])
                  else
                    (let tg = jumpTarget e view0 line0 otherLine down;
                         view = fst (fst tg);
                         ln = snd (fst tg);
                         wrapBlink = (if \<not> goToCornerDiff \<and> isCornerDiff
                                      then blinkAfterWrap e view ln down else None)
                     in case wrapBlink of
                          Some lineToBlink \<Rightarrow> ((view, - 1), snd tg @ [BlinkLine view lineToBlink])
                        | None \<Rightarrow>
                            (let fin = finishJump e view ln down doNotBlink
                             in (fst fin, snd tg @ snd fin))))))"

definition jumpToFirstChange :: "screen \<Rightarrow> bool \<Rightarrow> bool \<Rightarrow> (int \<times> int) \<times> ui_event list" where
  "jumpToFirstChange e goToCornerDiff doNotBlink =
     (let r = jumpToNextChange e 0 0 True goToCornerDiff doNotBlink
      in (fst r, snd r @ [ShowBlankAdjacentArrowMark (fst (fst r)) (snd (fst r)) True]))"

definition jumpToLastChange :: "screen \<Rightarrow> bool \<Rightarrow> bool \<Rightarrow> (int \<times> int) \<times> ui_event list" where
  "jumpToLastChange e goToCornerDiff doNotBlink =
     (let r = jumpToNextChange e (SCI_GETLINECOUNT (doc e) MAIN_VIEW)
                (SCI_GETLINECOUNT (doc e) SUB_VIEW) False goToCornerDiff doNotBlink
      in (fst r, snd r @ [ShowBlankAdjacentArrowMark (fst (fst r)) (snd (fst r)) False]))"

text \<open>
  \<^verbatim>\<open>jumpToChange\<close>, first part: the search from the bias line. The references
  \<^verbatim>\<open>currentLine\<close> and \<^verbatim>\<open>otherLine\<close> alias \<^verbatim>\<open>mainStartLine\<close> and
  \<^verbatim>\<open>subStartLine\<close> according to the current view.
\<close>

definition searchFromBias :: "screen \<Rightarrow> bool \<Rightarrow> (int \<times> int) \<times> ui_event list" where
  "searchFromBias e down =
     (let currentView = currentViewId e;
          otherView = getOtherViewId currentView;
          S = Settings (doc e);
          edge = (if down then getLastLine e currentView else getFirstLine e currentView);
          currentLine0 = (if FollowingCaret S then getCurrentLine e currentView else edge)
      in if FollowingCaret S \<and> isLineMarked e currentView currentLine0
              \<and> (if down then currentLine0 > edge else currentLine0 < edge)
         then ((currentView, currentLine0), [CenterAt currentView currentLine0])
         else
           (let currentLineNotAnnotated = (\<not> isLineAnnotated e currentView currentLine0);
                currentLine =
                  (if down then
                     (if \<not> currentLineNotAnnotated
                           \<and> isVisibleAdjacentAnnotation e currentView currentLine0 down
                      then currentLine0 + 1 else currentLine0)
                   else
                     (if isVisibleAdjacentAnnotation e currentView currentLine0 down
                      then currentLine0 - 1 else currentLine0));
                otherLine0 =
                  (if FollowingCaret S then otherViewMatchingLine e currentView currentLine
                   else (if down then getLastLine e otherView else getFirstLine e otherView));
                otherLine =
                  (if down \<and> currentLineNotAnnotated \<and> isLineAnnotated e otherView otherLine0
                   then otherLine0 + 1 else otherLine0);
                mainStartLine = (if currentView = MAIN_VIEW then currentLine else otherLine);
                subStartLine = (if currentView \<noteq> MAIN_VIEW then currentLine else otherLine)
            in if down then
                 jumpToNextChange e (getNextUnmarkedLine e MAIN_VIEW mainStartLine)
                   (getNextUnmarkedLine e SUB_VIEW subStartLine) down False False
               else
                 jumpToNextChange e (getPrevUnmarkedLine e MAIN_VIEW mainStartLine)
                   (getPrevUnmarkedLine e SUB_VIEW subStartLine) down False False))"

text \<open>
  Second part: nothing found. A search that returns a negative view has returned before
  any scrolling, blinking or caret move, so the second search reads the same state.
\<close>

definition jumpToChange :: "screen \<Rightarrow> bool \<Rightarrow> bool \<Rightarrow> (int \<times> int) \<times> ui_event list" where
  "jumpToChange e down wrapAround =
     (let r = searchFromBias e down
      in if fst (fst r) < 0 then
           (if wrapAround then
              (let r2 = (if down then jumpToFirstChange e True True else jumpToLastChange e True True)
               in (fst r2, snd r @ snd r2 @ [FlashWindowEx]))
            else
              (let r2 = (if down then jumpToLastChange e False False
                         else jumpToFirstChange e False False)
               in (fst r2, snd r @ snd r2)))
         else (fst r, snd r @ [ShowBlankAdjacentArrowMark (fst (fst r)) (snd (fst r)) down]))"

section \<open>Answers of a well-behaved editor\<close>

text \<open>
  The range properties below speak about screens whose answers are lines of the documents:
  the current view is one of the two views, a marker search answers -1 or a line of the
  searched view, the matching line of any line is a line of the other view, and the caret
  line and the first and last line on screen are lines of their view.
\<close>

definition validScreen :: "screen \<Rightarrow> bool" where
  "validScreen e \<longleftrightarrow>
     (currentViewId e = MAIN_VIEW \<or> currentViewId e = SUB_VIEW)
     \<and> (\<forall>v\<in>{MAIN_VIEW, SUB_VIEW}.
          (\<forall>s. SCI_MARKERNEXT e v s = - 1
                \<or> (0 \<le> SCI_MARKERNEXT e v s \<and> SCI_MARKERNEXT e v s < SCI_GETLINECOUNT (doc e) v))
          \<and> (\<forall>s. SCI_MARKERPREVIOUS e v s = - 1
                \<or> (0 \<le> SCI_MARKERPREVIOUS e v s
                     \<and> SCI_MARKERPREVIOUS e v s < SCI_GETLINECOUNT (doc e) v))
          \<and> (\<forall>l. 0 \<le> otherViewMatchingLine e v l
                \<and> otherViewMatchingLine e v l < SCI_GETLINECOUNT (doc e) (getOtherViewId v))
          \<and> 0 \<le> getCurrentLine e v \<and> getCurrentLine e v < SCI_GETLINECOUNT (doc e) v
          \<and> 0 \<le> getFirstLine e v \<and> getFirstLine e v < SCI_GETLINECOUNT (doc e) v
          \<and> 0 \<le> getLastLine e v \<and> getLastLine e v < SCI_GETLINECOUNT (doc e) v)"

definition lineOk :: "screen \<Rightarrow> int \<Rightarrow> int \<Rightarrow> bool" where
  "lineOk e v l \<longleftrightarrow> 0 \<le> l \<and> l < SCI_GETLINECOUNT (doc e) v"

text \<open>
  The line reached by a jump: a line of the view or, only for a search that moves upwards
  (\<open>up\<close>), the line count of the view, one past its annotated last line.
\<close>

definition reached :: "screen \<Rightarrow> bool \<Rightarrow> int \<Rightarrow> int \<Rightarrow> bool" where
  "reached e up v l \<longleftrightarrow>
     lineOk e v l
     \<or> (up \<and> l = SCI_GETLINECOUNT (doc e) v \<and> \<not> ShowOnlyDiffs (Settings (doc e))
          \<and> isLineAnnotated e v (l - 1))"

text \<open>
  What a navigation command returns: the pair (-1, -1), only under the condition
  \<open>none\<close>; or one of the two views with the line -1, only in follow-caret mode or
  under the condition \<open>wrap\<close>; or one of the two views with a line reached by the
  jump. The conditions and the direction are given per command.
\<close>

definition navOk :: "screen \<Rightarrow> bool \<Rightarrow> bool \<Rightarrow> bool \<Rightarrow> int \<times> int \<Rightarrow> bool" where
  "navOk e up wrap none r \<longleftrightarrow>
     (r = (- 1, - 1) \<and> none)
     \<or> ((fst r = MAIN_VIEW \<or> fst r = SUB_VIEW)
          \<and> ((snd r = - 1 \<and> (FollowingCaret (Settings (doc e)) \<or> wrap))
               \<or> reached e up (fst r) (snd r)))"

section \<open>Sample states\<close>

text \<open>Concrete inputs on which the theorems below are instantiated.\<close>

definition exampleTable :: AlignmentInfo_t where
  "exampleTable =
     [\<lparr>main = \<lparr>line = 1, diffMask = 0\<rparr>, sub = \<lparr>line = 1, diffMask = 0\<rparr>\<rparr>,
      \<lparr>main = \<lparr>line = 4, diffMask = 1\<rparr>, sub = \<lparr>line = 3, diffMask = 1\<rparr>\<rparr>,
      \<lparr>main = \<lparr>line = 6, diffMask = 0\<rparr>, sub = \<lparr>line = 7, diffMask = 0\<rparr>\<rparr>,
      \<lparr>main = \<lparr>line = 9, diffMask = 0\<rparr>, sub = \<lparr>line = 8, diffMask = 0\<rparr>\<rparr>]"

text \<open>A sorted table whose last main line is the largest \<^verbatim>\<open>int\<close>.\<close>

definition overflowTable :: AlignmentInfo_t where
  "overflowTable =
     [\<lparr>main = \<lparr>line = 1, diffMask = 0\<rparr>, sub = \<lparr>line = 1, diffMask = 0\<rparr>\<rparr>,
      \<lparr>main = \<lparr>line = 2147483647, diffMask = 0\<rparr>, sub = \<lparr>line = 2, diffMask = 0\<rparr>\<rparr>]"

text \<open>
  A world with two ten-line views carrying markers on lines 3, 4 and 5; the same world
  with all markers gone, half a second later; an empty tracker; the tracker after a
  two-line deletion at line 3 by the user, and the same push made sixteen milliseconds
  before the 32-bit tick counter wraps around.
\<close>

definition sampleWorld :: world where
  "sampleWorld =
     \<lparr>Settings = \<lparr>RecompareOnChange = False, ShowOnlyDiffs = False, UseNavBar = False,
                   FollowingCaret = False\<rparr>,
      views = (\<lambda>v. \<lparr>lineCount = 10,
                      lineMarkers = (\<lambda>l. if l = 3 then 1 else if l = 4 then 2
                                          else if l = 5 then 4 else 0),
                      lineFromPosition = (\<lambda>p. p div 10)\<rparr>),
      clock = 1000\<rparr>"

definition clearedWorld :: world where
  "clearedWorld =
     sampleWorld\<lparr>views := (\<lambda>v. (views sampleWorld v)\<lparr>lineMarkers := (\<lambda>l. 0)\<rparr>), clock := 1500\<rparr>"

definition emptyTracker :: DeletedSectionsList where
  "emptyTracker = \<lparr>lastPushTimeMark = 0, sections = []\<rparr>"

definition pushedTracker :: DeletedSectionsList where
  "pushedTracker =
     fst (snd (push 255 MAIN_VIEW SC_PERFORMED_USER 3 2 (Some 7) emptyTracker sampleWorld))"

text \<open>
  The tracker after a one-line deletion at line 5, whose boundary line 6 carries no marker,
  and a later world in which every line carries marker bit 3.
\<close>

definition pushedAtFive :: DeletedSectionsList where
  "pushedAtFive =
     fst (snd (push 255 MAIN_VIEW SC_PERFORMED_USER 5 1 (Some 7) emptyTracker sampleWorld))"

definition remarkedWorld :: world where
  "remarkedWorld =
     sampleWorld\<lparr>views := (\<lambda>v. (views sampleWorld v)\<lparr>lineMarkers := (\<lambda>l. 8)\<rparr>), clock := 1500\<rparr>"

definition pushedBeforeWrap :: DeletedSectionsList where
  "pushedBeforeWrap =
     fst (snd (push 255 MAIN_VIEW SC_PERFORMED_USER 3 2 None emptyTracker
                 (sampleWorld\<lparr>clock := 4294967280\<rparr>)))"

text \<open>
  Two ten-line views, the main view with differences on lines 3 and 7, nothing hidden,
  wrapped or annotated, everything visible, the caret of both views on line 7; the same
  screen with the main view scrolled to line 6 and the sub view showing only its first five
  lines; and with the main view scrolled to its last line.
\<close>

definition navWorld :: world where
  "navWorld =
     \<lparr>Settings = \<lparr>RecompareOnChange = False, ShowOnlyDiffs = False, UseNavBar = False,
                   FollowingCaret = False\<rparr>,
      views = (\<lambda>v. \<lparr>lineCount = 10,
                      lineMarkers = (\<lambda>l. if v = MAIN_VIEW \<and> (l = 3 \<or> l = 7) then 1 else 0),
                      lineFromPosition = (\<lambda>p. p div 10)\<rparr>),
      clock = 1000\<rparr>"

definition navScreen :: screen where
  "navScreen =
     \<lparr>doc = navWorld,
      hasCompare = True,
      findUniqueMode = False,
      currentViewId = MAIN_VIEW,
      SCI_MARKERNEXT = (\<lambda>v s. if v = MAIN_VIEW then (if s \<le> 3 then 3 else if s \<le> 7 then 7 else - 1)
                              else - 1),
      SCI_MARKERPREVIOUS = (\<lambda>v s. if v = MAIN_VIEW then (if 7 \<le> s then 7 else if 3 \<le> s then 3 else - 1)
                                  else - 1),
      SCI_VISIBLEFROMDOCLINE = (\<lambda>v l. l),
      SCI_DOCLINEFROMVISIBLE = (\<lambda>v l. l),
      getFirstVisibleLine = (\<lambda>v. 0),
      getFirstLine = (\<lambda>v. 0),
      getLastLine = (\<lambda>v. 9),
      getCurrentLine = (\<lambda>v. 7),
      getLineStart = (\<lambda>v l. 10 * l),
      getLineEnd = (\<lambda>v l. 10 * l + 9),
      isSelection = (\<lambda>v. False),
      isLineMarked = (\<lambda>v l. v = MAIN_VIEW \<and> (l = 3 \<or> l = 7)),
      isLineAnnotated = (\<lambda>v l. False),
      isLineWrapped = (\<lambda>v l. False),
      isLineVisible = (\<lambda>v l. True),
      isAdjacentAnnotation = (\<lambda>v l d. False),
      isVisibleAdjacentAnnotation = (\<lambda>v l d. False),
      otherViewMatchingLine = (\<lambda>v l. max 0 (min l 9)),
      getNextUnmarkedLine = (\<lambda>v l. if v = MAIN_VIEW \<and> (l = 3 \<or> l = 7) then l + 1 else l),
      getPrevUnmarkedLine = (\<lambda>v l. if v = MAIN_VIEW \<and> (l = 3 \<or> l = 7) then l - 1 else l)\<rparr>"

definition scrolledScreen :: screen where
  "scrolledScreen =
     navScreen\<lparr>getFirstVisibleLine := (\<lambda>v. if v = MAIN_VIEW then 6 else 2),
               SCI_VISIBLEFROMDOCLINE := (\<lambda>v l. if v = SUB_VIEW then min l 4 else l)\<rparr>"

definition endScreen :: screen where
  "endScreen =
     navScreen\<lparr>getFirstVisibleLine := (\<lambda>v. if v = MAIN_VIEW then 9 else 2),
               SCI_VISIBLEFROMDOCLINE := (\<lambda>v l. if v = SUB_VIEW then min l 4 else l)\<rparr>"







text \<open>
  The screen \<open>navScreen\<close> in follow-caret mode, and with the first difference of the
  main view on line 0 instead of line 3.
\<close>

definition followScreen :: screen where
  "followScreen =
     navScreen\<lparr>doc := navWorld\<lparr>Settings := (Settings navWorld)\<lparr>FollowingCaret := True\<rparr>\<rparr>\<rparr>"

definition lineZeroScreen :: screen where
  "lineZeroScreen =
     navScreen\<lparr>SCI_MARKERNEXT := (\<lambda>v s. if v = MAIN_VIEW then (if s \<le> 0 then 0 else if s \<le> 7 then 7 else - 1)
                                    else - 1),
               SCI_MARKERPREVIOUS := (\<lambda>v s. if v = MAIN_VIEW then (if 7 \<le> s then 7 else if 0 \<le> s then 0 else - 1)
                                        else - 1),
               isLineMarked := (\<lambda>v l. v = MAIN_VIEW \<and> (l = 0 \<or> l = 7)),
               getNextUnmarkedLine := (\<lambda>v l. if v = MAIN_VIEW \<and> (l = 0 \<or> l = 7) then l + 1 else l),
               getPrevUnmarkedLine := (\<lambda>v l. if v = MAIN_VIEW \<and> (l = 0 \<or> l = 7) then l - 1 else l)\<rparr>"

text \<open>
  The screen \<open>navScreen\<close> with the second difference of the main view on its last
  line, line 9, which carries an annotation.
\<close>

definition annotatedScreen :: screen where
  "annotatedScreen =
     navScreen\<lparr>SCI_MARKERNEXT := (\<lambda>v s. if v = MAIN_VIEW then (if s \<le> 3 then 3 else if s \<le> 9 then 9 else - 1)
                                    else - 1),
               SCI_MARKERPREVIOUS := (\<lambda>v s. if v = MAIN_VIEW then (if 9 \<le> s then 9 else if 3 \<le> s then 3 else - 1)
                                        else - 1),
               isLineMarked := (\<lambda>v l. v = MAIN_VIEW \<and> (l = 3 \<or> l = 9)),
               isLineAnnotated := (\<lambda>v l. l = 9)\<rparr>"

section \<open>Properties of the alignment table\<close>

lemma gallop_in_bounds:
  "idx + 2 * i \<le> length alignInfo \<Longrightarrow>
   \<exists>r. gallop pView alignInfo ln idx i = Inr r \<and> idx \<le> r \<and> r \<le> length alignInfo"
proof (induction pView alignInfo ln idx i rule: gallop.induct)
  case (1 pView alignInfo ln idx i)
  show ?case
  proof (cases "i = 0")
    case True
    with "1.prems" show ?thesis by (simp add: gallop.simps)
  next
    case False
    with "1.prems" have lt: "idx + i < length alignInfo" by linarith
    then have a: "at alignInfo (idx + i) = Inr (alignInfo ! (idx + i))"
      by (simp add: at_def)
    let ?idx' = "if line (pView (alignInfo ! (idx + i))) < ln then idx + i else idx"
    have "?idx' + 2 * (i div 2) \<le> length alignInfo"
      using "1.prems" by auto
    from "1.IH"[OF False a this]
    obtain r where r: "gallop pView alignInfo ln ?idx' (i div 2) = Inr r"
      "?idx' \<le> r" "r \<le> length alignInfo" by blast
    have "gallop pView alignInfo ln idx i = Inr r"
      using False a r(1) by (subst gallop.simps) simp
    moreover have "idx \<le> r" using r(2) by (auto split: if_splits)
    ultimately show ?thesis using r(3) by blast
  qed
qed

lemma scan_result:
  "idx \<le> length alignInfo \<Longrightarrow>
   \<exists>r. scan pView alignInfo ln idx = Inr r \<and> idx \<le> r \<and> r \<le> length alignInfo
     \<and> (\<forall>j. idx \<le> j \<and> j < r \<longrightarrow> line (pView (alignInfo ! j)) < ln)
     \<and> (r < length alignInfo \<longrightarrow> ln \<le> line (pView (alignInfo ! r)))"
proof (induction pView alignInfo ln idx rule: scan.induct)
  case (1 pView alignInfo ln idx)
  show ?case
  proof (cases "idx < length alignInfo \<and> line (pView (alignInfo ! idx)) < ln")
    case True
    then have a: "at alignInfo idx = Inr (alignInfo ! idx)" by (simp add: at_def)
    from True have "idx + 1 \<le> length alignInfo" by simp
    from "1.IH"[OF _ a _ this] True
    obtain r where r: "scan pView alignInfo ln (idx + 1) = Inr r" "idx + 1 \<le> r"
      "r \<le> length alignInfo"
      "\<forall>j. idx + 1 \<le> j \<and> j < r \<longrightarrow> line (pView (alignInfo ! j)) < ln"
      "r < length alignInfo \<longrightarrow> ln \<le> line (pView (alignInfo ! r))" by blast
    have "scan pView alignInfo ln idx = Inr r"
      using True a r(1) by (subst scan.simps) simp
    moreover have "\<forall>j. idx \<le> j \<and> j < r \<longrightarrow> line (pView (alignInfo ! j)) < ln"
    proof (intro allI impI)
      fix j assume j: "idx \<le> j \<and> j < r"
      show "line (pView (alignInfo ! j)) < ln"
      proof (cases "j = idx")
        case True
        with \<open>idx < length alignInfo \<and> line (pView (alignInfo ! idx)) < ln\<close> show ?thesis by simp
      next
        case False
        with j r(4) show ?thesis by simp
      qed
    qed
    ultimately show ?thesis using r(2,3,5) by auto
  next
    case False
    then have "scan pView alignInfo ln idx = Inr idx"
      by (subst scan.simps) (auto simp: at_def)
    with False "1.prems" show ?thesis by auto
  qed
qed

lemma gallop_sorted:
  assumes "sorted_wrt (\<lambda>a b. line (pView a) \<le> line (pView b)) alignInfo"
    and "idx + 2 * i \<le> length alignInfo"
    and "\<forall>j<idx. line (pView (alignInfo ! j)) < ln"
    and "gallop pView alignInfo ln idx i = Inr r"
  shows "\<forall>j<r. line (pView (alignInfo ! j)) < ln"
  using assms
proof (induction pView alignInfo ln idx i rule: gallop.induct)
  case (1 pView alignInfo ln idx i)
  show ?case
  proof (cases "i = 0")
    case True
    with "1.prems" show ?thesis by (simp add: gallop.simps)
  next
    case False
    with "1.prems" have lt: "idx + i < length alignInfo" by linarith
    then have a: "at alignInfo (idx + i) = Inr (alignInfo ! (idx + i))"
      by (simp add: at_def)
    let ?idx' = "if line (pView (alignInfo ! (idx + i))) < ln then idx + i else idx"
    have b: "?idx' + 2 * (i div 2) \<le> length alignInfo"
      using "1.prems" by auto
    have c: "\<forall>j<?idx'. line (pView (alignInfo ! j)) < ln"
    proof (cases "line (pView (alignInfo ! (idx + i))) < ln")
      case True
      have "line (pView (alignInfo ! j)) < ln" if "j < idx + i" for j
      proof -
        have "line (pView (alignInfo ! j)) \<le> line (pView (alignInfo ! (idx + i)))"
          using "1.prems"(1) that lt by (simp add: sorted_wrt_iff_nth_less)
        with True show ?thesis by simp
      qed
      with True show ?thesis by simp
    next
      case False
      with "1.prems"(3) show ?thesis by simp
    qed
    have d: "gallop pView alignInfo ln ?idx' (i div 2) = Inr r"
      using "1.prems"(4) False a by (subst (asm) gallop.simps) simp
    from "1.IH"[OF False a "1.prems"(1) b c d] show ?thesis .
  qed
qed

lemma getAlignmentIdxAfter_total:
  "\<exists>r. getAlignmentIdxAfter pView alignInfo ln = Inr r \<and> r \<le> length alignInfo"
proof -
  have "0 + 2 * (length alignInfo div 2) \<le> length alignInfo" by simp
  from gallop_in_bounds[OF this]
  obtain r0 where r0: "gallop pView alignInfo ln 0 (length alignInfo div 2) = Inr r0"
    "r0 \<le> length alignInfo" by blast
  from scan_result[OF r0(2)]
  obtain r where "scan pView alignInfo ln r0 = Inr r" "r \<le> length alignInfo" by blast
  with r0 show ?thesis by (simp add: getAlignmentIdxAfter_def)
qed

lemma getAlignmentIdxAfter_sorted:
  assumes "sorted_wrt (\<lambda>a b. line (pView a) \<le> line (pView b)) alignInfo"
  shows "\<exists>r. getAlignmentIdxAfter pView alignInfo ln = Inr r \<and> r \<le> length alignInfo
     \<and> (\<forall>j<r. line (pView (alignInfo ! j)) < ln)
     \<and> (r < length alignInfo \<longrightarrow> ln \<le> line (pView (alignInfo ! r)))"
proof -
  have inv: "0 + 2 * (length alignInfo div 2) \<le> length alignInfo" by simp
  from gallop_in_bounds[OF this]
  obtain r0 where r0: "gallop pView alignInfo ln 0 (length alignInfo div 2) = Inr r0"
    "r0 \<le> length alignInfo" by blast
  have below: "\<forall>j<r0. line (pView (alignInfo ! j)) < ln"
    by (rule gallop_sorted[OF assms inv _ r0(1)]) simp
  from scan_result[OF r0(2)]
  obtain r where r: "scan pView alignInfo ln r0 = Inr r" "r0 \<le> r" "r \<le> length alignInfo"
    "\<forall>j. r0 \<le> j \<and> j < r \<longrightarrow> line (pView (alignInfo ! j)) < ln"
    "r < length alignInfo \<longrightarrow> ln \<le> line (pView (alignInfo ! r))" by blast
  have "\<forall>j<r. line (pView (alignInfo ! j)) < ln"
    using below r(4) by (metis not_le_imp_less)
  with r r0 show ?thesis by (simp add: getAlignmentIdxAfter_def)
qed

lemma int32_id:
  "isInt x \<Longrightarrow> int32 x = x"
  by (simp add: isInt_def INT_MIN_def INT_MAX_def int32_def)

lemma line_addLine [simp]:
  "line (alignView view (addLine view off e)) = int32 (line (alignView view e) + off)"
  by (simp add: alignView_def addLine_def)

lemma shiftFrom_eq:
  "i \<le> length xs \<Longrightarrow>
   shiftFrom view off i xs = Inr (take i xs @ map (addLine view off) (drop i xs))"
proof (induction view off i xs rule: shiftFrom.induct)
  case (1 view off i xs)
  show ?case
  proof (cases "i < length xs")
    case True
    then have a: "at xs i = Inr (xs ! i)" by (simp add: at_def)
    let ?xs' = "xs[i := addLine view off (xs ! i)]"
    from True have "i + 1 \<le> length ?xs'" by simp
    from "1.IH"[OF True a this]
    have "shiftFrom view off (i + 1) ?xs'
            = Inr (take (i + 1) ?xs' @ map (addLine view off) (drop (i + 1) ?xs'))" .
    moreover have "take (i + 1) ?xs' = take i xs @ [addLine view off (xs ! i)]"
      using True by (simp add: take_Suc_conv_app_nth)
    moreover have "drop (i + 1) ?xs' = drop (Suc i) xs" by simp
    moreover have "drop i xs = xs ! i # drop (Suc i) xs"
      using True by (simp add: Cons_nth_drop_Suc)
    moreover have "shiftFrom view off i xs = shiftFrom view off (i + 1) ?xs'"
      using True a by (subst shiftFrom.simps) simp
    ultimately show ?thesis by simp
  next
    case False
    with "1.prems" have "i = length xs" by simp
    then show ?thesis by (subst shiftFrom.simps) simp
  qed
qed

lemma findEnd_result:
  "endIdx \<le> length alignInfo \<Longrightarrow>
   \<exists>r. findEnd view alignInfo ln off endIdx = Inr r \<and> endIdx \<le> r \<and> r \<le> length alignInfo
     \<and> (\<forall>j. endIdx \<le> j \<and> j < r \<longrightarrow> int32 (line (alignView view (alignInfo ! j)) + off) < ln)
     \<and> (r < length alignInfo \<longrightarrow> ln \<le> int32 (line (alignView view (alignInfo ! r)) + off))"
proof (induction view alignInfo ln off endIdx rule: findEnd.induct)
  case (1 view alignInfo ln off endIdx)
  show ?case
  proof (cases "endIdx < length alignInfo \<and> int32 (line (alignView view (alignInfo ! endIdx)) + off) < ln")
    case True
    then have a: "at alignInfo endIdx = Inr (alignInfo ! endIdx)" by (simp add: at_def)
    from True have "endIdx + 1 \<le> length alignInfo" by simp
    from "1.IH"[OF _ a _ this] True
    obtain r where r: "findEnd view alignInfo ln off (endIdx + 1) = Inr r" "endIdx + 1 \<le> r"
      "r \<le> length alignInfo"
      "\<forall>j. endIdx + 1 \<le> j \<and> j < r \<longrightarrow> int32 (line (alignView view (alignInfo ! j)) + off) < ln"
      "r < length alignInfo \<longrightarrow> ln \<le> int32 (line (alignView view (alignInfo ! r)) + off)" by blast
    have "findEnd view alignInfo ln off endIdx = Inr r"
      using True a r(1) by (subst findEnd.simps) simp
    moreover have "\<forall>j. endIdx \<le> j \<and> j < r \<longrightarrow> int32 (line (alignView view (alignInfo ! j)) + off) < ln"
    proof (intro allI impI)
      fix j assume j: "endIdx \<le> j \<and> j < r"
      show "int32 (line (alignView view (alignInfo ! j)) + off) < ln"
      proof (cases "j = endIdx")
        case True
        with \<open>endIdx < length alignInfo \<and> int32 (line (alignView view (alignInfo ! endIdx)) + off) < ln\<close>
        show ?thesis by simp
      next
        case False
        with j r(4) show ?thesis by simp
      qed
    qed
    ultimately show ?thesis using r(2,3,5) by auto
  next
    case False
    then have "findEnd view alignInfo ln off endIdx = Inr endIdx"
      by (subst findEnd.simps) (auto simp: at_def)
    with False "1.prems" show ?thesis by auto
  qed
qed

lemma map_split:
  assumes "i0 \<le> length xs" "\<forall>j<i0. P (xs ! j)" "\<forall>j. i0 \<le> j \<and> j < length xs \<longrightarrow> \<not> P (xs ! j)"
  shows "map (\<lambda>i1. if P i1 then i1 else g i1) xs = take i0 xs @ map g (drop i0 xs)"
proof -
  have a: "map (\<lambda>i1. if P i1 then i1 else g i1) (take i0 xs) = take i0 xs"
  proof (rule map_idI)
    fix x assume "x \<in> set (take i0 xs)"
    then obtain j where "j < i0" "j < length xs" "x = xs ! j"
      using assms(1) by (auto simp: in_set_conv_nth)
    with assms(2) show "(if P x then x else g x) = x" by simp
  qed
  have b: "map (\<lambda>i1. if P i1 then i1 else g i1) (drop i0 xs) = map g (drop i0 xs)"
  proof (rule map_cong[OF refl])
    fix x assume "x \<in> set (drop i0 xs)"
    then obtain j where "j < length xs - i0" "x = xs ! (i0 + j)"
      by (auto simp: in_set_conv_nth)
    with assms(3) have "\<not> P x" by simp
    then show "(if P x then x else g x) = g x" by simp
  qed
  have "map (\<lambda>i1. if P i1 then i1 else g i1) xs
          = map (\<lambda>i1. if P i1 then i1 else g i1) (take i0 xs @ drop i0 xs)" by simp
  also have "\<dots> = take i0 xs @ map g (drop i0 xs)"
    unfolding map_append a b ..
  finally show ?thesis .
qed

lemma filter_split:
  assumes "i0 \<le> i1" "i1 \<le> length xs" "\<forall>j<i0. Q (xs ! j)"
    "\<forall>j. i0 \<le> j \<and> j < i1 \<longrightarrow> \<not> Q (xs ! j)" "\<forall>j. i1 \<le> j \<and> j < length xs \<longrightarrow> Q (xs ! j)"
  shows "filter Q xs = take i0 xs @ drop i1 xs"
proof -
  have xs: "xs = take i0 xs @ (take (i1 - i0) (drop i0 xs) @ drop i1 xs)"
  proof -
    have "drop i0 xs = take (i1 - i0) (drop i0 xs) @ drop (i1 - i0) (drop i0 xs)"
      by (rule append_take_drop_id[symmetric])
    moreover have "drop (i1 - i0) (drop i0 xs) = drop i1 xs" using assms(1) by simp
    moreover have "xs = take i0 xs @ drop i0 xs" by simp
    ultimately show ?thesis by metis
  qed
  have a: "filter Q (take i0 xs) = take i0 xs"
  proof (rule filter_True)
    show "\<forall>x\<in>set (take i0 xs). Q x"
    proof
      fix x assume "x \<in> set (take i0 xs)"
      then obtain j where "j < i0" "j < length xs" "x = xs ! j"
        using assms(1,2) by (auto simp: in_set_conv_nth)
      with assms(3) show "Q x" by simp
    qed
  qed
  have b: "filter Q (take (i1 - i0) (drop i0 xs)) = []"
  proof (rule filter_False)
    show "\<forall>x\<in>set (take (i1 - i0) (drop i0 xs)). \<not> Q x"
    proof
      fix x assume "x \<in> set (take (i1 - i0) (drop i0 xs))"
      then obtain j where "j < i1 - i0" "x = xs ! (i0 + j)"
        using assms(1,2) by (auto simp: in_set_conv_nth)
      with assms(4) show "\<not> Q x" by simp
    qed
  qed
  have c: "filter Q (drop i1 xs) = drop i1 xs"
  proof (rule filter_True)
    show "\<forall>x\<in>set (drop i1 xs). Q x"
    proof
      fix x assume "x \<in> set (drop i1 xs)"
      then obtain j where "j < length xs - i1" "x = xs ! (i1 + j)"
        by (auto simp: in_set_conv_nth)
      with assms(5) show "Q x" by simp
    qed
  qed
  have "filter Q xs = filter Q (take i0 xs @ (take (i1 - i0) (drop i0 xs) @ drop i1 xs))"
    using xs by simp
  also have "\<dots> = take i0 xs @ drop i1 xs"
    unfolding filter_append a b c by simp
  finally show ?thesis .
qed

lemma sorted_shifted:
  assumes srt: "sorted_wrt (\<lambda>a b. line (alignView view a) \<le> line (alignView view b)) xs"
    and se: "i0 \<le> i1" "i1 \<le> length xs"
    and lo: "\<forall>j<i0. line (alignView view (xs ! j)) < L"
    and hi: "\<forall>j. i1 \<le> j \<and> j < length xs \<longrightarrow> L \<le> line (alignView view (xs ! j)) + off"
    and rg: "\<forall>j. i1 \<le> j \<and> j < length xs \<longrightarrow> isInt (line (alignView view (xs ! j)) + off)"
  shows "sorted_wrt (\<lambda>a b. line (alignView view a) \<le> line (alignView view b))
           (take i0 xs @ map (addLine view off) (drop i1 xs))"
proof -
  let ?R = "\<lambda>a b. line (alignView view a) \<le> line (alignView view b)"
  have a: "sorted_wrt ?R (take i0 xs)" using srt by (rule sorted_wrt_take)
  have d: "sorted_wrt ?R (drop i1 xs)" using srt by (rule sorted_wrt_drop)
  have id: "int32 (line (alignView view y) + off) = line (alignView view y) + off"
    if "y \<in> set (drop i1 xs)" for y
  proof -
    from that obtain k where "k < length xs - i1" "y = xs ! (i1 + k)"
      by (auto simp: in_set_conv_nth)
    with rg have "isInt (line (alignView view y) + off)" by simp
    then show ?thesis by (rule int32_id)
  qed
  have "sorted_wrt (\<lambda>a b. ?R (addLine view off a) (addLine view off b)) (drop i1 xs)"
  proof (rule sorted_wrt_mono_rel[OF _ d])
    fix x y assume "x \<in> set (drop i1 xs)" "y \<in> set (drop i1 xs)" "?R x y"
    then show "?R (addLine view off x) (addLine view off y)" by (simp add: id)
  qed
  then have b: "sorted_wrt ?R (map (addLine view off) (drop i1 xs))"
    by (simp add: sorted_wrt_map)
  have c: "?R x y" if "x \<in> set (take i0 xs)" "y \<in> set (map (addLine view off) (drop i1 xs))" for x y
  proof -
    from that(1) obtain j where j: "j < i0" "j < length xs" "x = xs ! j"
      using se by (auto simp: in_set_conv_nth)
    from that(2) obtain k where k: "k < length xs - i1" "y = addLine view off (xs ! (i1 + k))"
      by (auto simp: in_set_conv_nth)
    have "line (alignView view x) < L" using j lo by simp
    moreover have "isInt (line (alignView view (xs ! (i1 + k))) + off)" using k rg by simp
    then have "line (alignView view y) = line (alignView view (xs ! (i1 + k))) + off"
      using k by (simp add: int32_id)
    moreover have "L \<le> line (alignView view (xs ! (i1 + k))) + off" using k hi by simp
    ultimately show ?thesis by simp
  qed
  show ?thesis using a b c by (simp add: sorted_wrt_append)
qed

lemma sorted_from:
  assumes "sorted_wrt (\<lambda>a b. line (pView a) \<le> line (pView b)) xs"
    and "r < length xs \<longrightarrow> L \<le> line (pView (xs ! r)) + off"
  shows "\<forall>j. r \<le> j \<and> j < length xs \<longrightarrow> L \<le> line (pView (xs ! j)) + off"
proof (intro allI impI)
  fix j assume j: "r \<le> j \<and> j < length xs"
  show "L \<le> line (pView (xs ! j)) + off"
  proof (cases "r = j")
    case True
    with j assms(2) show ?thesis by simp
  next
    case False
    with j have "r < j" by simp
    with j assms(1) have "line (pView (xs ! r)) \<le> line (pView (xs ! j))"
      by (simp add: sorted_wrt_iff_nth_less)
    moreover from j have "r < length xs" by simp
    ultimately show ?thesis using assms(2) by linarith
  qed
qed

lemma adjust_insert_eq:
  assumes srt: "sorted_wrt (\<lambda>a b. line (alignView view a) \<le> line (alignView view b)) tab"
    and off: "0 \<le> off"
  shows "\<exists>r. r \<le> length tab
           \<and> (\<forall>j<r. line (alignView view (tab ! j)) < L)
           \<and> (\<forall>j. r \<le> j \<and> j < length tab \<longrightarrow> L \<le> line (alignView view (tab ! j)))
           \<and> map (\<lambda>e. if line (alignView view e) < L then e else addLine view off e) tab
                = take r tab @ map (addLine view off) (drop r tab)
           \<and> adjustAlignment view L off tab
                = Inr (map (\<lambda>e. if line (alignView view e) < L then e else addLine view off e) tab)"
proof -
  from getAlignmentIdxAfter_sorted[OF srt, of L]
  obtain r where r: "getAlignmentIdxAfter (alignView view) tab L = Inr r" "r \<le> length tab"
    "\<forall>j<r. line (alignView view (tab ! j)) < L"
    "r < length tab \<longrightarrow> L \<le> line (alignView view (tab ! r))" by blast
  from r(4) have "r < length tab \<longrightarrow> L \<le> line (alignView view (tab ! r)) + 0" by simp
  from sorted_from[OF srt this]
  have above: "\<forall>j. r \<le> j \<and> j < length tab \<longrightarrow> L \<le> line (alignView view (tab ! j))" by simp
  then have above': "\<forall>j. r \<le> j \<and> j < length tab \<longrightarrow> \<not> line (alignView view (tab ! j)) < L"
    by (simp add: not_less)
  have m: "map (\<lambda>e. if line (alignView view e) < L then e else addLine view off e) tab
             = take r tab @ map (addLine view off) (drop r tab)"
    by (rule map_split[OF r(2,3) above'])
  have "adjustAlignment view L off tab = Inr (take r tab @ map (addLine view off) (drop r tab))"
  proof (cases "r < length tab")
    case True
    then have "at tab r = Inr (tab ! r)" by (simp add: at_def)
    moreover from True r(4) have "L \<le> line (alignView view (tab ! r))" by simp
    ultimately show ?thesis
      using r(1,2) True off by (simp add: adjustAlignment_def shiftFrom_eq)
  next
    case False
    with r(2) have "r = length tab" by simp
    with r(1) show ?thesis by (simp add: adjustAlignment_def)
  qed
  with m r(2,3) above show ?thesis by (intro exI[of _ r]) simp
qed

lemma adjust_insert_sorted:
  assumes srt: "sorted_wrt (\<lambda>a b. line (alignView view a) \<le> line (alignView view b)) tab"
    and off: "0 \<le> off"
    and rg: "\<forall>e\<in>set tab. L \<le> line (alignView view e) \<longrightarrow> isInt (line (alignView view e) + off)"
  shows "sorted_wrt (\<lambda>a b. line (alignView view a) \<le> line (alignView view b))
           (map (\<lambda>e. if line (alignView view e) < L then e else addLine view off e) tab)"
proof -
  from adjust_insert_eq[OF srt off, of L]
  obtain r where r: "r \<le> length tab"
    "\<forall>j<r. line (alignView view (tab ! j)) < L"
    "\<forall>j. r \<le> j \<and> j < length tab \<longrightarrow> L \<le> line (alignView view (tab ! j))"
    "map (\<lambda>e. if line (alignView view e) < L then e else addLine view off e) tab
       = take r tab @ map (addLine view off) (drop r tab)" by blast
  have "sorted_wrt (\<lambda>a b. line (alignView view a) \<le> line (alignView view b))
             (take r tab @ map (addLine view off) (drop r tab))"
  proof (rule sorted_shifted[OF srt _ r(1) r(2)])
    show "r \<le> r" by simp
    show "\<forall>j. r \<le> j \<and> j < length tab \<longrightarrow> L \<le> line (alignView view (tab ! j)) + off"
      using r(3) off by fastforce
    show "\<forall>j. r \<le> j \<and> j < length tab \<longrightarrow> isInt (line (alignView view (tab ! j)) + off)"
      using r(3) rg by simp
  qed
  with r(4) show ?thesis by simp
qed

lemma adjust_delete:
  assumes srt: "sorted_wrt (\<lambda>a b. line (alignView view a) \<le> line (alignView view b)) tab"
    and off: "off < 0" "isInt off"
    and L: "0 \<le> L"
    and rg: "\<forall>e\<in>set tab. isInt (line (alignView view e))"
  shows "adjustAlignment view L off tab =
           Inr (map (\<lambda>e. if line (alignView view e) < L then e else addLine view off e)
                  (filter (\<lambda>e. \<not> (L \<le> line (alignView view e) \<and> line (alignView view e) < L - off)) tab))"
proof -
  let ?ln = "\<lambda>e. line (alignView view e)"
  let ?Q = "\<lambda>e. \<not> (L \<le> ?ln e \<and> ?ln e < L - off)"
  let ?h = "\<lambda>e. if ?ln e < L then e else addLine view off e"
  from getAlignmentIdxAfter_sorted[OF srt, of L]
  obtain r where r: "getAlignmentIdxAfter (alignView view) tab L = Inr r" "r \<le> length tab"
    "\<forall>j<r. ?ln (tab ! j) < L"
    "r < length tab \<longrightarrow> L \<le> ?ln (tab ! r)" by blast
  from r(4) have "r < length tab \<longrightarrow> L \<le> ?ln (tab ! r) + 0" by simp
  from sorted_from[OF srt this]
  have above: "\<forall>j. r \<le> j \<and> j < length tab \<longrightarrow> L \<le> ?ln (tab ! j)" by simp
  have id: "int32 (?ln (tab ! j) + off) = ?ln (tab ! j) + off" if "r \<le> j" "j < length tab" for j
  proof -
    from that above have "L \<le> ?ln (tab ! j)" by simp
    moreover from that rg have "isInt (?ln (tab ! j))" by simp
    ultimately have "isInt (?ln (tab ! j) + off)"
      using off L by (simp add: isInt_def)
    then show ?thesis by (rule int32_id)
  qed
  from findEnd_result[OF r(2), of view L off]
  obtain e where e: "findEnd view tab L off r = Inr e" "r \<le> e" "e \<le> length tab"
    "\<forall>j. r \<le> j \<and> j < e \<longrightarrow> int32 (?ln (tab ! j) + off) < L"
    "e < length tab \<longrightarrow> L \<le> int32 (?ln (tab ! e) + off)" by blast
  have e4: "\<forall>j. r \<le> j \<and> j < e \<longrightarrow> ?ln (tab ! j) + off < L"
    using e(3,4) id by fastforce
  have e5: "e < length tab \<longrightarrow> L \<le> ?ln (tab ! e) + off"
    using e(2,5) id by fastforce
  from sorted_from[OF srt e5]
  have beyond: "\<forall>j. e \<le> j \<and> j < length tab \<longrightarrow> L \<le> ?ln (tab ! j) + off" .
  have f: "filter ?Q tab = take r tab @ drop e tab"
  proof (rule filter_split[OF e(2,3)])
    show "\<forall>j<r. ?Q (tab ! j)" using r(3) by fastforce
    show "\<forall>j. r \<le> j \<and> j < e \<longrightarrow> \<not> ?Q (tab ! j)"
      using above e(3) e4 by fastforce
    show "\<forall>j. e \<le> j \<and> j < length tab \<longrightarrow> ?Q (tab ! j)"
      using beyond by fastforce
  qed
  have m1: "map ?h (take r tab) = take r tab"
  proof (rule map_idI)
    fix x assume "x \<in> set (take r tab)"
    then obtain j where "j < r" "j < length tab" "x = tab ! j"
      using r(2) by (auto simp: in_set_conv_nth)
    with r(3) show "?h x = x" by simp
  qed
  have m2: "map ?h (drop e tab) = map (addLine view off) (drop e tab)"
  proof (rule map_cong[OF refl])
    fix x assume "x \<in> set (drop e tab)"
    then obtain j where "j < length tab - e" "x = tab ! (e + j)"
      by (auto simp: in_set_conv_nth)
    with beyond have "L \<le> ?ln x + off" by simp
    with off have "\<not> ?ln x < L" by simp
    then show "?h x = addLine view off x" by simp
  qed
  have m: "map ?h (filter ?Q tab) = take r tab @ map (addLine view off) (drop e tab)"
    unfolding f map_append m1 m2 ..
  have "adjustAlignment view L off tab = Inr (take r tab @ map (addLine view off) (drop e tab))"
  proof (cases "r < length tab")
    case True
    then have a: "at tab r = Inr (tab ! r)" by (simp add: at_def)
    from True r(4) have b: "L \<le> ?ln (tab ! r)" by simp
    let ?tab' = "if e > r then erase r e tab else tab"
    have t': "?tab' = take r tab @ drop e tab"
      using e(2) by (auto simp: erase_def)
    have "r \<le> length ?tab'" unfolding t' using r(2) by simp
    from shiftFrom_eq[OF this, of view off]
    have "shiftFrom view off r ?tab' = Inr (take r tab @ map (addLine view off) (drop e tab))"
      unfolding t' using r(2) by simp
    then show ?thesis
      using r(1) True a b off e(1) by (simp add: adjustAlignment_def)
  next
    case False
    with r(2) e(2,3) have "r = length tab" "e = length tab" by simp_all
    with r(1) show ?thesis by (simp add: adjustAlignment_def)
  qed
  with m show ?thesis by simp
qed

lemma addLine_keeps:
  "diffMask (alignView view (addLine view k e)) = diffMask (alignView view e)
   \<and> alignView (getOtherViewId view) (addLine view k e) = alignView (getOtherViewId view) e"
  by (simp add: alignView_def addLine_def getOtherViewId_def MAIN_VIEW_def SUB_VIEW_def)

text \<open>
  Claim C10. For every alignment table, the empty one included, and every target line,
  \<open>getAlignmentIdxAfter\<close> never reads outside the table (no \<open>OutOfBounds\<close>)
  and its result lies between 0 and the table size. The galloping loop stays in bounds
  from every state with \<open>idx + 2 * i \<le> size\<close>, which holds initially and is
  kept by every step; the linear scan stays in bounds from every index up to the size.
\<close>

theorem getAlignmentIdxAfter_in_bounds:
  "(\<exists>r. getAlignmentIdxAfter pView alignInfo ln = Inr r \<and> r \<le> length alignInfo)
   \<and> (\<forall>idx i. idx + 2 * i \<le> length alignInfo \<longrightarrow>
         (\<exists>r. gallop pView alignInfo ln idx i = Inr r \<and> idx \<le> r \<and> r \<le> length alignInfo))
   \<and> (\<forall>idx. idx \<le> length alignInfo \<longrightarrow>
         (\<exists>r. scan pView alignInfo ln idx = Inr r \<and> idx \<le> r \<and> r \<le> length alignInfo))"
proof (intro conjI allI impI)
  show "\<exists>r. getAlignmentIdxAfter pView alignInfo ln = Inr r \<and> r \<le> length alignInfo"
    by (rule getAlignmentIdxAfter_total)
next
  fix idx i assume "idx + 2 * i \<le> length alignInfo"
  then show "\<exists>r. gallop pView alignInfo ln idx i = Inr r \<and> idx \<le> r \<and> r \<le> length alignInfo"
    by (rule gallop_in_bounds)
next
  fix idx assume "idx \<le> length alignInfo"
  from scan_result[OF this, of pView ln]
  show "\<exists>r. scan pView alignInfo ln idx = Inr r \<and> idx \<le> r \<and> r \<le> length alignInfo"
    by blast
qed

lemma example_idx: "getAlignmentIdxAfter (alignView MAIN_VIEW) exampleTable 5 = Inr 2"
  by code_simp

text \<open>
  The table \<open>exampleTable\<close> has four entries; the search for line 5 in the main
  view ends at index 2.
\<close>

theorem getAlignmentIdxAfter_in_bounds_witness:
  "getAlignmentIdxAfter (alignView MAIN_VIEW) exampleTable 5 = Inr 2
   \<and> (\<exists>r. gallop (alignView MAIN_VIEW) exampleTable 5 0 2 = Inr r \<and> r \<le> length exampleTable)"
proof -
  have "0 + 2 * 2 \<le> length exampleTable" by (simp add: exampleTable_def)
  with getAlignmentIdxAfter_in_bounds[of "alignView MAIN_VIEW" exampleTable 5]
  have "\<exists>r. gallop (alignView MAIN_VIEW) exampleTable 5 0 2 = Inr r \<and> 0 \<le> r
          \<and> r \<le> length exampleTable" by blast
  then show ?thesis using example_idx by blast
qed

text \<open>
  Claim C4. On a table sorted ascending in the chosen view's lines, of any size,
  \<open>getAlignmentIdxAfter\<close> returns the least index whose line in that view is at
  least the target line: every entry before the result is below the target, the entry at
  the result (if any) is not, and the result is the table size when no entry qualifies.
\<close>

theorem getAlignmentIdxAfter_minimal:
  assumes "sorted_wrt (\<lambda>a b. line (alignView view a) \<le> line (alignView view b)) alignInfo"
  shows "\<exists>r. getAlignmentIdxAfter (alignView view) alignInfo ln = Inr r
           \<and> r \<le> length alignInfo
           \<and> (\<forall>j<r. line (alignView view (alignInfo ! j)) < ln)
           \<and> (r < length alignInfo \<longrightarrow> ln \<le> line (alignView view (alignInfo ! r)))
           \<and> ((\<forall>j<length alignInfo. line (alignView view (alignInfo ! j)) < ln)
                \<longrightarrow> r = length alignInfo)"
proof -
  from getAlignmentIdxAfter_sorted[OF assms, of ln]
  obtain r where r: "getAlignmentIdxAfter (alignView view) alignInfo ln = Inr r"
    "r \<le> length alignInfo"
    "\<forall>j<r. line (alignView view (alignInfo ! j)) < ln"
    "r < length alignInfo \<longrightarrow> ln \<le> line (alignView view (alignInfo ! r))" by blast
  have "(\<forall>j<length alignInfo. line (alignView view (alignInfo ! j)) < ln) \<longrightarrow> r = length alignInfo"
    using r(2,4) by (metis le_neq_implies_less not_less)
  with r show ?thesis by blast
qed

lemma example_sorted:
  "sorted_wrt (\<lambda>a b. line (alignView MAIN_VIEW a) \<le> line (alignView MAIN_VIEW b)) exampleTable"
  by (simp add: exampleTable_def alignView_def)

text \<open>
  No entry of \<open>exampleTable\<close> reaches line 10: the result is the table size.
\<close>

theorem getAlignmentIdxAfter_minimal_witness:
  "sorted_wrt (\<lambda>a b. line (alignView MAIN_VIEW a) \<le> line (alignView MAIN_VIEW b)) exampleTable
   \<and> getAlignmentIdxAfter (alignView MAIN_VIEW) exampleTable 10 = Inr (length exampleTable)"
proof -
  have "\<forall>x\<in>set exampleTable. line (alignView MAIN_VIEW x) < 10"
    by (simp add: exampleTable_def alignView_def)
  then have "\<forall>j<length exampleTable. line (alignView MAIN_VIEW (exampleTable ! j)) < 10"
    by (simp only: all_set_conv_all_nth)
  with getAlignmentIdxAfter_minimal[OF example_sorted, of 10]
  show ?thesis using example_sorted by auto
qed

text \<open>
  Claim C1, as the 32-bit arithmetic of the code allows it. On a table of \<^verbatim>\<open>int\<close> lines
  sorted ascending in the chosen view's lines, for a line \<open>L \<ge> 0\<close> and an
  \<^verbatim>\<open>int\<close> \<open>N > 0\<close>: \<open>adjustAlignment view L N\<close> leaves every entry whose line
  in the view is below \<open>L\<close> as it is and adds \<open>N\<close>, as a 32-bit sum, to the line
  of every other entry; when none of these lines exceeds \<open>INT_MAX - N\<close>, each of them
  grows by exactly \<open>N\<close> and the result is sorted. \<open>adjustAlignment view L (- N)\<close>
  erases exactly the entries whose line lies in \<open>[L, L + N)\<close> and subtracts exactly
  \<open>N\<close> from the line of every remaining entry at or after \<open>L\<close>. Adding to a line
  changes neither the entry's mask nor its data for the other view.
\<close>

theorem adjustAlignment_shift:
  assumes "sorted_wrt (\<lambda>a b. line (alignView view a) \<le> line (alignView view b)) alignInfo"
    and "0 \<le> L" and "0 < N" and "isInt N"
    and "\<forall>e\<in>set alignInfo. isInt (line (alignView view e))"
  shows "adjustAlignment view L N alignInfo =
           Inr (map (\<lambda>e. if line (alignView view e) < L then e else addLine view N e) alignInfo)
         \<and> ((\<forall>e\<in>set alignInfo. L \<le> line (alignView view e)
                 \<longrightarrow> line (alignView view e) + N \<le> INT_MAX) \<longrightarrow>
              (\<forall>e\<in>set alignInfo. L \<le> line (alignView view e)
                 \<longrightarrow> line (alignView view (addLine view N e)) = line (alignView view e) + N)
              \<and> sorted_wrt (\<lambda>a b. line (alignView view a) \<le> line (alignView view b))
                  (map (\<lambda>e. if line (alignView view e) < L then e else addLine view N e)
                     alignInfo))
         \<and> adjustAlignment view L (- N) alignInfo =
             Inr (map (\<lambda>e. if line (alignView view e) < L then e else addLine view (- N) e)
                    (filter (\<lambda>e. \<not> (L \<le> line (alignView view e) \<and> line (alignView view e) < L + N))
                       alignInfo))
         \<and> (\<forall>e\<in>set alignInfo. L \<le> line (alignView view e)
               \<longrightarrow> line (alignView view (addLine view (- N) e)) = line (alignView view e) - N)
         \<and> (\<forall>e k. line (alignView view (addLine view k e)) = int32 (line (alignView view e) + k)
                 \<and> diffMask (alignView view (addLine view k e)) = diffMask (alignView view e)
                 \<and> alignView (getOtherViewId view) (addLine view k e)
                     = alignView (getOtherViewId view) e)"
proof (intro conjI impI)
  from assms(3) have n: "0 \<le> N" by simp
  from adjust_insert_eq[OF assms(1) n, of L]
  show "adjustAlignment view L N alignInfo =
          Inr (map (\<lambda>e. if line (alignView view e) < L then e else addLine view N e) alignInfo)"
    by blast
next
  assume nov: "\<forall>e\<in>set alignInfo. L \<le> line (alignView view e)
                 \<longrightarrow> line (alignView view e) + N \<le> INT_MAX"
  have rg: "\<forall>e\<in>set alignInfo. L \<le> line (alignView view e)
              \<longrightarrow> isInt (line (alignView view e) + N)"
    using nov assms(2,3) by (auto simp: isInt_def INT_MIN_def)
  then show "\<forall>e\<in>set alignInfo. L \<le> line (alignView view e)
                 \<longrightarrow> line (alignView view (addLine view N e)) = line (alignView view e) + N"
    by (simp add: int32_id)
  from assms(3) have n: "0 \<le> N" by simp
  show "sorted_wrt (\<lambda>a b. line (alignView view a) \<le> line (alignView view b))
          (map (\<lambda>e. if line (alignView view e) < L then e else addLine view N e) alignInfo)"
    by (rule adjust_insert_sorted[OF assms(1) n rg])
next
  have m: "- N < 0" "isInt (- N)"
    using assms(3,4) by (simp_all add: isInt_def INT_MIN_def INT_MAX_def)
  from adjust_delete[OF assms(1) m assms(2,5)]
  show "adjustAlignment view L (- N) alignInfo =
             Inr (map (\<lambda>e. if line (alignView view e) < L then e else addLine view (- N) e)
                    (filter (\<lambda>e. \<not> (L \<le> line (alignView view e) \<and> line (alignView view e) < L + N))
                       alignInfo))"
    by simp
next
  have "isInt (line (alignView view e) - N)"
    if "e \<in> set alignInfo" "L \<le> line (alignView view e)" for e
    using that assms(2,3,4,5) by (auto simp: isInt_def INT_MIN_def INT_MAX_def)
  then show "\<forall>e\<in>set alignInfo. L \<le> line (alignView view e)
               \<longrightarrow> line (alignView view (addLine view (- N) e)) = line (alignView view e) - N"
    by (simp add: int32_id)
next
  show "\<forall>e k. line (alignView view (addLine view k e)) = int32 (line (alignView view e) + k)
                 \<and> diffMask (alignView view (addLine view k e)) = diffMask (alignView view e)
                 \<and> alignView (getOtherViewId view) (addLine view k e)
                     = alignView (getOtherViewId view) e"
    using addLine_keeps by simp
qed

text \<open>
  Inserting two lines at line 4 of the main view, and deleting lines 4 and 5 of it.
\<close>

theorem adjustAlignment_shift_witness:
  "sorted_wrt (\<lambda>a b. line (alignView MAIN_VIEW a) \<le> line (alignView MAIN_VIEW b)) exampleTable
   \<and> adjustAlignment MAIN_VIEW 4 2 exampleTable =
       Inr [\<lparr>main = \<lparr>line = 1, diffMask = 0\<rparr>, sub = \<lparr>line = 1, diffMask = 0\<rparr>\<rparr>,
            \<lparr>main = \<lparr>line = 6, diffMask = 1\<rparr>, sub = \<lparr>line = 3, diffMask = 1\<rparr>\<rparr>,
            \<lparr>main = \<lparr>line = 8, diffMask = 0\<rparr>, sub = \<lparr>line = 7, diffMask = 0\<rparr>\<rparr>,
            \<lparr>main = \<lparr>line = 11, diffMask = 0\<rparr>, sub = \<lparr>line = 8, diffMask = 0\<rparr>\<rparr>]
   \<and> sorted_wrt (\<lambda>a b. line (alignView MAIN_VIEW a) \<le> line (alignView MAIN_VIEW b))
       (map (\<lambda>e. if line (alignView MAIN_VIEW e) < 4 then e else addLine MAIN_VIEW 2 e)
          exampleTable)
   \<and> adjustAlignment MAIN_VIEW 4 (- 2) exampleTable =
       Inr [\<lparr>main = \<lparr>line = 1, diffMask = 0\<rparr>, sub = \<lparr>line = 1, diffMask = 0\<rparr>\<rparr>,
            \<lparr>main = \<lparr>line = 4, diffMask = 0\<rparr>, sub = \<lparr>line = 7, diffMask = 0\<rparr>\<rparr>,
            \<lparr>main = \<lparr>line = 7, diffMask = 0\<rparr>, sub = \<lparr>line = 8, diffMask = 0\<rparr>\<rparr>]"
proof -
  have rg: "\<forall>e\<in>set exampleTable. isInt (line (alignView MAIN_VIEW e))"
    by (simp add: exampleTable_def alignView_def isInt_def INT_MIN_def INT_MAX_def)
  have n: "isInt 2" by (simp add: isInt_def INT_MIN_def INT_MAX_def)
  have nov: "\<forall>e\<in>set exampleTable. 4 \<le> line (alignView MAIN_VIEW e)
               \<longrightarrow> line (alignView MAIN_VIEW e) + 2 \<le> INT_MAX"
    by (simp add: exampleTable_def alignView_def INT_MAX_def)
  have v: "map (\<lambda>e. if line (alignView MAIN_VIEW e) < 4 then e else addLine MAIN_VIEW 2 e)
             exampleTable =
       [\<lparr>main = \<lparr>line = 1, diffMask = 0\<rparr>, sub = \<lparr>line = 1, diffMask = 0\<rparr>\<rparr>,
        \<lparr>main = \<lparr>line = 6, diffMask = 1\<rparr>, sub = \<lparr>line = 3, diffMask = 1\<rparr>\<rparr>,
        \<lparr>main = \<lparr>line = 8, diffMask = 0\<rparr>, sub = \<lparr>line = 7, diffMask = 0\<rparr>\<rparr>,
        \<lparr>main = \<lparr>line = 11, diffMask = 0\<rparr>, sub = \<lparr>line = 8, diffMask = 0\<rparr>\<rparr>]"
    by (simp add: exampleTable_def alignView_def addLine_def MAIN_VIEW_def int32_def)
  have d: "map (\<lambda>e. if line (alignView MAIN_VIEW e) < 4 then e else addLine MAIN_VIEW (- 2) e)
             (filter (\<lambda>e. \<not> (4 \<le> line (alignView MAIN_VIEW e) \<and> line (alignView MAIN_VIEW e) < 4 + 2))
                exampleTable) =
       [\<lparr>main = \<lparr>line = 1, diffMask = 0\<rparr>, sub = \<lparr>line = 1, diffMask = 0\<rparr>\<rparr>,
        \<lparr>main = \<lparr>line = 4, diffMask = 0\<rparr>, sub = \<lparr>line = 7, diffMask = 0\<rparr>\<rparr>,
        \<lparr>main = \<lparr>line = 7, diffMask = 0\<rparr>, sub = \<lparr>line = 8, diffMask = 0\<rparr>\<rparr>]"
    by (simp add: exampleTable_def alignView_def addLine_def MAIN_VIEW_def int32_def)
  from adjustAlignment_shift[OF example_sorted _ _ n rg, of 4] nov
  have "adjustAlignment MAIN_VIEW 4 2 exampleTable =
           Inr (map (\<lambda>e. if line (alignView MAIN_VIEW e) < 4 then e else addLine MAIN_VIEW 2 e)
                  exampleTable)"
    and "sorted_wrt (\<lambda>a b. line (alignView MAIN_VIEW a) \<le> line (alignView MAIN_VIEW b))
           (map (\<lambda>e. if line (alignView MAIN_VIEW e) < 4 then e else addLine MAIN_VIEW 2 e)
              exampleTable)"
    and "adjustAlignment MAIN_VIEW 4 (- 2) exampleTable =
             Inr (map (\<lambda>e. if line (alignView MAIN_VIEW e) < 4 then e else addLine MAIN_VIEW (- 2) e)
                    (filter (\<lambda>e. \<not> (4 \<le> line (alignView MAIN_VIEW e)
                                    \<and> line (alignView MAIN_VIEW e) < 4 + 2))
                       exampleTable))"
    by simp_all
  then show ?thesis using example_sorted unfolding v d by simp
qed

text \<open>
  The claim as stated, for every \<open>N > 0\<close>, fails at the top of the \<^verbatim>\<open>int\<close> range: in
  the sorted table with main lines 1 and \<open>INT_MAX\<close>, inserting one line at line 0 turns
  the second line into \<open>INT_MIN\<close>, which is not an increase by one and leaves the table
  unsorted.
\<close>

theorem adjustAlignment_shift_overflow:
  "sorted_wrt (\<lambda>a b. line (alignView MAIN_VIEW a) \<le> line (alignView MAIN_VIEW b)) overflowTable
   \<and> adjustAlignment MAIN_VIEW 0 1 overflowTable =
       Inr [\<lparr>main = \<lparr>line = 2, diffMask = 0\<rparr>, sub = \<lparr>line = 1, diffMask = 0\<rparr>\<rparr>,
            \<lparr>main = \<lparr>line = - 2147483648, diffMask = 0\<rparr>, sub = \<lparr>line = 2, diffMask = 0\<rparr>\<rparr>]
   \<and> \<not> sorted_wrt (\<lambda>a b. line (alignView MAIN_VIEW a) \<le> line (alignView MAIN_VIEW b))
         [\<lparr>main = \<lparr>line = 2, diffMask = 0\<rparr>, sub = \<lparr>line = 1, diffMask = 0\<rparr>\<rparr>,
          \<lparr>main = \<lparr>line = - 2147483648, diffMask = 0\<rparr>, sub = \<lparr>line = 2, diffMask = 0\<rparr>\<rparr>]"
proof -
  have "adjustAlignment MAIN_VIEW 0 1 overflowTable =
       Inr [\<lparr>main = \<lparr>line = 2, diffMask = 0\<rparr>, sub = \<lparr>line = 1, diffMask = 0\<rparr>\<rparr>,
            \<lparr>main = \<lparr>line = - 2147483648, diffMask = 0\<rparr>, sub = \<lparr>line = 2, diffMask = 0\<rparr>\<rparr>]"
    by code_simp
  then show ?thesis by (simp add: overflowTable_def alignView_def MAIN_VIEW_def)
qed
section \<open>Properties of the change tracker\<close>

lemma lineCount_setLineMarkers [simp]:
  "lineCount (views (setLineMarkers view ln m w) v) = lineCount (views w v)"
  by (simp add: setLineMarkers_def)

lemma Settings_setLineMarkers [simp]:
  "Settings (setLineMarkers view ln m w) = Settings w"
  by (simp add: setLineMarkers_def)

lemma clock_setLineMarkers [simp]:
  "clock (setLineMarkers view ln m w) = clock w"
  by (simp add: setLineMarkers_def)

lemma MARKERGET_setLineMarkers:
  "SCI_MARKERGET (setLineMarkers view ln m w) v l =
     (if v = view \<and> l = ln \<and> 0 \<le> ln \<and> ln < lineCount (views w view) then m
      else SCI_MARKERGET w v l)"
  by (auto simp: setLineMarkers_def SCI_MARKERGET_def)

lemma lineCount_clearMarks [simp]:
  "lineCount (views (clearMarks MM view ln w) v) = lineCount (views w v)"
  by (simp add: clearMarks_def)

lemma Settings_clearMarks [simp]: "Settings (clearMarks MM view ln w) = Settings w"
  by (simp add: clearMarks_def)

lemma clock_clearMarks [simp]: "clock (clearMarks MM view ln w) = clock w"
  by (simp add: clearMarks_def)

lemma MARKERGET_clearMarks:
  "SCI_MARKERGET (clearMarks MM view ln w) v l =
     (if v = view \<and> l = ln then SCI_MARKERGET w v l AND NOT MM else SCI_MARKERGET w v l)"
  by (auto simp: clearMarks_def MARKERGET_setLineMarkers) (simp add: SCI_MARKERGET_def)+

lemma lineCount_MARKERADDSET [simp]:
  "lineCount (views (SCI_MARKERADDSET view ln m w) v) = lineCount (views w v)"
  by (simp add: SCI_MARKERADDSET_def)

lemma Settings_MARKERADDSET [simp]: "Settings (SCI_MARKERADDSET view ln m w) = Settings w"
  by (simp add: SCI_MARKERADDSET_def)

lemma clock_MARKERADDSET [simp]: "clock (SCI_MARKERADDSET view ln m w) = clock w"
  by (simp add: SCI_MARKERADDSET_def)

lemma MARKERGET_MARKERADDSET:
  "SCI_MARKERGET (SCI_MARKERADDSET view ln m w) v l =
     (if v = view \<and> l = ln \<and> 0 \<le> ln \<and> ln < lineCount (views w view)
      then SCI_MARKERGET w v l OR m else SCI_MARKERGET w v l)"
  by (simp add: SCI_MARKERADDSET_def MARKERGET_setLineMarkers)

lemma lineCount_setMarkers [simp]:
  "lineCount (views (setMarkers MM view s ms w) v) = lineCount (views w v)"
  by (induction ms arbitrary: s w) (simp_all add: Let_def)

lemma Settings_setMarkers [simp]: "Settings (setMarkers MM view s ms w) = Settings w"
  by (induction ms arbitrary: s w) (simp_all add: Let_def)

lemma clock_setMarkers [simp]: "clock (setMarkers MM view s ms w) = clock w"
  by (induction ms arbitrary: s w) (simp_all add: Let_def)

lemma Settings_clearMarksRange [simp]: "Settings (clearMarksRange MM view s k w) = Settings w"
  by (induction k arbitrary: s w) simp_all

lemma clock_clearMarksRange [simp]: "clock (clearMarksRange MM view s k w) = clock w"
  by (induction k arbitrary: s w) simp_all

lemma MARKERGET_step:
  "SCI_MARKERGET (if m \<noteq> 0 then SCI_MARKERADDSET view s m (clearMarks MM view s w)
                  else clearMarks MM view s w) v l =
     (if v = view \<and> l = s then
        (if 0 \<le> l \<and> l < lineCount (views w view) then (SCI_MARKERGET w v l AND NOT MM) OR m else 0)
      else SCI_MARKERGET w v l)"
proof (cases "v = view \<and> l = s")
  case True
  show ?thesis
  proof (cases "0 \<le> l \<and> l < lineCount (views w view)")
    case True
    with \<open>v = view \<and> l = s\<close> show ?thesis
      by (simp add: MARKERGET_MARKERADDSET MARKERGET_clearMarks)
  next
    case False
    then have "SCI_MARKERGET w view l = 0" by (auto simp: SCI_MARKERGET_def)
    with False \<open>v = view \<and> l = s\<close> show ?thesis
      by (auto simp: MARKERGET_MARKERADDSET MARKERGET_clearMarks)
  qed
next
  case False
  then show ?thesis
    by (auto simp: MARKERGET_MARKERADDSET MARKERGET_clearMarks)
qed

lemma MARKERGET_setMarkers_outside:
  "\<not> (v = view \<and> s \<le> l \<and> l < s + int (length ms)) \<Longrightarrow>
   SCI_MARKERGET (setMarkers MM view s ms w) v l = SCI_MARKERGET w v l"
proof (induction ms arbitrary: s w)
  case Nil
  show ?case by simp
next
  case (Cons m ms)
  let ?w2 = "if m \<noteq> 0 then SCI_MARKERADDSET view s m (clearMarks MM view s w)
             else clearMarks MM view s w"
  from Cons.prems have a: "\<not> (v = view \<and> s + 1 \<le> l \<and> l < s + 1 + int (length ms))"
    and b: "\<not> (v = view \<and> l = s)" by auto
  have "SCI_MARKERGET (setMarkers MM view s (m # ms) w) v l
          = SCI_MARKERGET (setMarkers MM view (s + 1) ms ?w2) v l"
    by (simp add: Let_def)
  also have "\<dots> = SCI_MARKERGET ?w2 v l" by (rule Cons.IH[OF a])
  also have "\<dots> = SCI_MARKERGET w v l" using b by (simp only: MARKERGET_step if_False)
  finally show ?case .
qed

lemma MARKERGET_setMarkers_inside:
  "s \<le> l \<Longrightarrow> l < s + int (length ms) \<Longrightarrow> 0 \<le> l \<Longrightarrow> l < lineCount (views w view) \<Longrightarrow>
   SCI_MARKERGET (setMarkers MM view s ms w) view l
     = (SCI_MARKERGET w view l AND NOT MM) OR ms ! nat (l - s)"
proof (induction ms arbitrary: s w)
  case Nil
  then show ?case by simp
next
  case (Cons m ms)
  let ?w2 = "if m \<noteq> 0 then SCI_MARKERADDSET view s m (clearMarks MM view s w)
             else clearMarks MM view s w"
  have unfold: "SCI_MARKERGET (setMarkers MM view s (m # ms) w) view l
          = SCI_MARKERGET (setMarkers MM view (s + 1) ms ?w2) view l"
    by (simp add: Let_def)
  show ?case
  proof (cases "l = s")
    case True
    then have "\<not> (view = view \<and> s + 1 \<le> l \<and> l < s + 1 + int (length ms))" by simp
    from MARKERGET_setMarkers_outside[OF this]
    have "SCI_MARKERGET (setMarkers MM view (s + 1) ms ?w2) view l = SCI_MARKERGET ?w2 view l" .
    also have "\<dots> = (SCI_MARKERGET w view l AND NOT MM) OR m"
      using True Cons.prems(3,4) by (simp only: MARKERGET_step) simp
    finally show ?thesis using True unfold by simp
  next
    case False
    with Cons.prems have a: "s + 1 \<le> l" "l < s + 1 + int (length ms)" by simp_all
    have lc: "l < lineCount (views ?w2 view)" using Cons.prems(4) by simp
    have "SCI_MARKERGET (setMarkers MM view (s + 1) ms ?w2) view l
            = (SCI_MARKERGET ?w2 view l AND NOT MM) OR ms ! nat (l - (s + 1))"
      by (rule Cons.IH[OF a Cons.prems(3) lc])
    moreover have "SCI_MARKERGET ?w2 view l = SCI_MARKERGET w view l"
      using False by (simp only: MARKERGET_step) simp
    moreover have "nat (l - s) = Suc (nat (l - (s + 1)))" using a by linarith
    ultimately show ?thesis using unfold by simp
  qed
qed

lemma length_getMarkers [simp]: "length (getMarkers w view s len MM) = nat len"
  by (simp add: getMarkers_def)

lemma nth_getMarkers:
  "i < nat len \<Longrightarrow> getMarkers w view s len MM ! i = SCI_MARKERGET w view (s + int i) AND MM"
  by (simp add: getMarkers_def)

lemma mask_restore:
  fixes a b m :: "32 word"
  shows "((a AND NOT m) OR (b AND m)) AND m = b AND m"
    and "((a AND NOT m) OR (b AND m)) AND NOT m = a AND NOT m"
  by (rule bit_eqI; auto simp: bit_and_iff bit_or_iff bit_not_iff)+

lemma push_True:
  assumes "push MM view action startLn len undo t w = (True, t1, w1)"
  shows "1 \<le> len"
    and "\<exists>d. sections t1 = sections t @ [d]
           \<and> startLine d = startLn
           \<and> restoreAction d = (if action = SC_PERFORMED_UNDO then SC_PERFORMED_REDO
                                 else SC_PERFORMED_UNDO)
           \<and> undoInfo d = undo
           \<and> markers d = (if RecompareOnChange (Settings w) then []
                           else getMarkers w view startLn len MM)
           \<and> nextLineMarker d =
               (if \<not> RecompareOnChange (Settings w) \<and> startLn + len < lineCount (views w view)
                then SCI_MARKERGET w view (startLn + len) AND MM else 0)"
  using assms
  by (auto simp: push_def Let_def newDeletedSection_def SCI_GETLINECOUNT_def split: if_splits)

lemma pop_match:
  assumes "sections t1 = xs @ [d]" "startLine d = startLn" "restoreAction d = act"
  shows "pop MM view act startLn t1 w' =
           (undoInfo d, t1\<lparr>sections := xs\<rparr>,
            (if markers d \<noteq> [] then
               (let w1 = setMarkers MM view startLn (markers d) w'
                in if nextLineMarker d \<noteq> 0 then
                     SCI_MARKERADDSET view (startLn + int (length (markers d))) (nextLineMarker d)
                       (clearMarks MM view (startLn + int (length (markers d))) w1)
                   else w1)
             else w'))"
  using assms by (simp add: pop_def Let_def)

lemma MARKERGET_out_of_range:
  "\<not> (0 \<le> l \<and> l < lineCount (views w v)) \<Longrightarrow> SCI_MARKERGET w v l = 0"
  by (auto simp: SCI_MARKERGET_def)

lemma setMarkers_keeps_other_bits:
  fixes MM :: "32 word"
  assumes "\<forall>k<length ms. ms ! k AND NOT MM = 0"
  shows "SCI_MARKERGET (setMarkers MM view s ms w) v l AND NOT MM = SCI_MARKERGET w v l AND NOT MM"
proof (cases "v = view \<and> s \<le> l \<and> l < s + int (length ms)")
  case False
  then show ?thesis by (simp add: MARKERGET_setMarkers_outside)
next
  case True
  show ?thesis
  proof (cases "0 \<le> l \<and> l < lineCount (views w view)")
    case inr: True
    from True have k: "nat (l - s) < length ms" by linarith
    with assms have z: "ms ! nat (l - s) AND NOT MM = 0" by simp
    have "SCI_MARKERGET (setMarkers MM view s ms w) view l
            = (SCI_MARKERGET w view l AND NOT MM) OR ms ! nat (l - s)"
      using True inr by (intro MARKERGET_setMarkers_inside) simp_all
    then have "SCI_MARKERGET (setMarkers MM view s ms w) view l AND NOT MM
            = ((SCI_MARKERGET w view l AND NOT MM) OR ms ! nat (l - s)) AND NOT MM" by simp
    also have "\<dots> = SCI_MARKERGET w view l AND NOT MM"
      using z by (simp add: bit.conj_disj_distrib2)
    finally show ?thesis using True by simp
  next
    case False
    then have "SCI_MARKERGET w view l = 0" by (rule MARKERGET_out_of_range)
    moreover from False have "\<not> (0 \<le> l \<and> l < lineCount (views (setMarkers MM view s ms w) view))"
      by simp
    then have "SCI_MARKERGET (setMarkers MM view s ms w) view l = 0"
      by (rule MARKERGET_out_of_range)
    ultimately show ?thesis using True by simp
  qed
qed

lemma and_not_mask:
  fixes x m :: "32 word"
  shows "(x AND m) AND NOT m = 0"
  by (rule bit_eqI) (auto simp: bit_and_iff bit_not_iff)

lemma getMarkers_in_mask:
  fixes MM :: "32 word"
  shows "\<forall>k<length (getMarkers w view s len MM). getMarkers w view s len MM ! k AND NOT MM = 0"
  by (simp add: getMarkers_def and_not_mask)

text \<open>
  Claim C2, with the boundary line as the code treats it. When \<open>push\<close> succeeds and
  the next operation on the tracker is \<open>pop\<close> for the same view and start line with
  the inverse action tag, in whatever state \<open>w'\<close> the editor is by then, \<open>pop\<close>
  returns the very pointer that was pushed and the stack is as before the push. The markers
  captured by \<open>push\<close> (auto-recompare off) are back on every line of
  \<open>[startLine, startLine + len)\<close> that exists. The line after the range, if it
  exists, carries the captured boundary bitmap again when a non-empty one was captured; when
  none was captured
  (the line did not exist at the push, or carried no marker of the mask) that line keeps
  the markers it has at the pop. Every other line of either view is left as it is, and no
  bit outside the marker mask changes anywhere. With auto-recompare on nothing was captured
  and the editor is left as it is.
\<close>

theorem push_pop_roundtrip:
  assumes ok: "push MM view action startLn len undo t w = (True, t1, w1)"
  shows "\<exists>t2 w2.
           pop MM view (if action = SC_PERFORMED_UNDO then SC_PERFORMED_REDO else SC_PERFORMED_UNDO)
             startLn t1 w' = (undo, t2, w2)
         \<and> sections t2 = sections t
         \<and> (RecompareOnChange (Settings w) \<longrightarrow> w2 = w')
         \<and> (\<not> RecompareOnChange (Settings w) \<longrightarrow>
              (\<forall>i<nat len. 0 \<le> startLn + int i \<and> startLn + int i < lineCount (views w' view) \<longrightarrow>
                 SCI_MARKERGET w2 view (startLn + int i) AND MM
                   = SCI_MARKERGET w view (startLn + int i) AND MM)
            \<and> (startLn + len < lineCount (views w view)
                 \<and> SCI_MARKERGET w view (startLn + len) AND MM \<noteq> 0
                 \<and> startLn + len < lineCount (views w' view) \<longrightarrow>
                 SCI_MARKERGET w2 view (startLn + len) AND MM
                   = SCI_MARKERGET w view (startLn + len) AND MM)
            \<and> (\<not> (startLn + len < lineCount (views w view)
                    \<and> SCI_MARKERGET w view (startLn + len) AND MM \<noteq> 0) \<longrightarrow>
                 SCI_MARKERGET w2 view (startLn + len) = SCI_MARKERGET w' view (startLn + len))
            \<and> (\<forall>v l. \<not> (v = view \<and> startLn \<le> l \<and> l \<le> startLn + len) \<longrightarrow>
                 SCI_MARKERGET w2 v l = SCI_MARKERGET w' v l)
            \<and> (\<forall>v l. SCI_MARKERGET w2 v l AND NOT MM = SCI_MARKERGET w' v l AND NOT MM))"
proof -
  let ?inv = "if action = SC_PERFORMED_UNDO then SC_PERFORMED_REDO else SC_PERFORMED_UNDO"
  from push_True[OF ok] obtain d where len: "1 \<le> len"
    and d: "sections t1 = sections t @ [d]" "startLine d = startLn" "restoreAction d = ?inv"
      "undoInfo d = undo"
      "markers d = (if RecompareOnChange (Settings w) then [] else getMarkers w view startLn len MM)"
      "nextLineMarker d =
         (if \<not> RecompareOnChange (Settings w) \<and> startLn + len < lineCount (views w view)
          then SCI_MARKERGET w view (startLn + len) AND MM else 0)"
    by blast
  let ?W1 = "setMarkers MM view startLn (markers d) w'"
  let ?b = "startLn + int (length (markers d))"
  let ?w2 = "if markers d \<noteq> [] then
               (if nextLineMarker d \<noteq> 0 then
                  SCI_MARKERADDSET view ?b (nextLineMarker d) (clearMarks MM view ?b ?W1)
                else ?W1)
             else w'"
  have p: "pop MM view ?inv startLn t1 w' = (undo, t1\<lparr>sections := sections t\<rparr>, ?w2)"
    using pop_match[OF d(1,2,3), of MM view w'] d(4) by (simp add: Let_def)
  have rc: "RecompareOnChange (Settings w) \<longrightarrow> ?w2 = w'" using d(5) by simp
  have main: "(\<forall>i<nat len. 0 \<le> startLn + int i \<and> startLn + int i < lineCount (views w' view) \<longrightarrow>
                 SCI_MARKERGET ?w2 view (startLn + int i) AND MM
                   = SCI_MARKERGET w view (startLn + int i) AND MM)
            \<and> (startLn + len < lineCount (views w view)
                 \<and> SCI_MARKERGET w view (startLn + len) AND MM \<noteq> 0
                 \<and> startLn + len < lineCount (views w' view) \<longrightarrow>
                 SCI_MARKERGET ?w2 view (startLn + len) AND MM
                   = SCI_MARKERGET w view (startLn + len) AND MM)
            \<and> (\<not> (startLn + len < lineCount (views w view)
                    \<and> SCI_MARKERGET w view (startLn + len) AND MM \<noteq> 0) \<longrightarrow>
                 SCI_MARKERGET ?w2 view (startLn + len) = SCI_MARKERGET w' view (startLn + len))
            \<and> (\<forall>v l. \<not> (v = view \<and> startLn \<le> l \<and> l \<le> startLn + len) \<longrightarrow>
                 SCI_MARKERGET ?w2 v l = SCI_MARKERGET w' v l)
            \<and> (\<forall>v l. SCI_MARKERGET ?w2 v l AND NOT MM = SCI_MARKERGET w' v l AND NOT MM)"
    if nr: "\<not> RecompareOnChange (Settings w)"
  proof -
    from nr d(5) have m: "markers d = getMarkers w view startLn len MM" by simp
    with len have ne: "markers d \<noteq> []" and lm: "length (markers d) = nat len"
      by (auto simp: getMarkers_def)
    from lm len have b: "?b = startLn + len" by simp
    have w2: "?w2 = (if nextLineMarker d \<noteq> 0 then
                  SCI_MARKERADDSET view ?b (nextLineMarker d) (clearMarks MM view ?b ?W1)
                else ?W1)" using ne by simp
    have other: "SCI_MARKERGET ?w2 v l = SCI_MARKERGET ?W1 v l" if "\<not> (v = view \<and> l = ?b)" for v l
      unfolding w2 using that by (auto simp: MARKERGET_MARKERADDSET MARKERGET_clearMarks)
    have restored: "SCI_MARKERGET ?w2 view (startLn + int i) AND MM
                   = SCI_MARKERGET w view (startLn + int i) AND MM"
      if i: "i < nat len" "0 \<le> startLn + int i" "startLn + int i < lineCount (views w' view)" for i
    proof -
      from i(1) b have "\<not> (view = view \<and> startLn + int i = ?b)" by simp
      then have "SCI_MARKERGET ?w2 view (startLn + int i) = SCI_MARKERGET ?W1 view (startLn + int i)"
        by (rule other)
      also have "\<dots> = (SCI_MARKERGET w' view (startLn + int i) AND NOT MM)
                         OR markers d ! nat (startLn + int i - startLn)"
        using i lm len by (intro MARKERGET_setMarkers_inside) simp_all
      also have "markers d ! nat (startLn + int i - startLn)
                   = SCI_MARKERGET w view (startLn + int i) AND MM"
        using i(1) m by (simp add: nth_getMarkers)
      finally show ?thesis by (simp only: mask_restore)
    qed
    have boundary: "SCI_MARKERGET ?w2 view (startLn + len) AND MM
                   = SCI_MARKERGET w view (startLn + len) AND MM"
      if h: "startLn + len < lineCount (views w view)"
        "SCI_MARKERGET w view (startLn + len) AND MM \<noteq> 0"
        "startLn + len < lineCount (views w' view)"
    proof -
      from h(2) have "SCI_MARKERGET w view (startLn + len) \<noteq> 0" by auto
      then have nonneg: "0 \<le> startLn + len"
        by (auto simp: SCI_MARKERGET_def split: if_splits)
      from nr h(1) d(6) have nl: "nextLineMarker d = SCI_MARKERGET w view (startLn + len) AND MM"
        by simp
      with h(2) have "nextLineMarker d \<noteq> 0" by simp
      then have "?w2 = SCI_MARKERADDSET view ?b (nextLineMarker d) (clearMarks MM view ?b ?W1)"
        using w2 by simp
      then have "SCI_MARKERGET ?w2 view (startLn + len)
                   = (SCI_MARKERGET ?W1 view (startLn + len) AND NOT MM) OR nextLineMarker d"
        using b nonneg h(3) by (simp add: MARKERGET_MARKERADDSET MARKERGET_clearMarks)
      then show ?thesis unfolding nl by (simp only: mask_restore)
    qed
    have bits: "SCI_MARKERGET ?w2 v l AND NOT MM = SCI_MARKERGET w' v l AND NOT MM" for v l
    proof -
      have W1: "SCI_MARKERGET ?W1 v l AND NOT MM = SCI_MARKERGET w' v l AND NOT MM"
        unfolding m by (rule setMarkers_keeps_other_bits[OF getMarkers_in_mask])
      show ?thesis
      proof (cases "v = view \<and> l = ?b \<and> nextLineMarker d \<noteq> 0")
        case False
        then have "SCI_MARKERGET ?w2 v l = SCI_MARKERGET ?W1 v l"
          unfolding w2 by (auto simp: MARKERGET_MARKERADDSET MARKERGET_clearMarks)
        with W1 show ?thesis by simp
      next
        case True
        have nlm: "nextLineMarker d AND NOT MM = 0"
          using d(6) by (simp add: and_not_mask)
        have "SCI_MARKERGET ?w2 v l AND NOT MM = SCI_MARKERGET ?W1 v l AND NOT MM"
        proof (cases "0 \<le> l \<and> l < lineCount (views w' view)")
          case inr: True
          with True have "SCI_MARKERGET ?w2 v l
               = (SCI_MARKERGET ?W1 v l AND NOT MM) OR nextLineMarker d"
            unfolding w2 by (simp add: MARKERGET_MARKERADDSET MARKERGET_clearMarks)
          then show ?thesis using nlm by (simp add: bit.conj_disj_distrib2)
        next
          case False
          with True have "SCI_MARKERGET ?w2 v l = 0" "SCI_MARKERGET ?W1 v l = 0"
            by (auto intro!: MARKERGET_out_of_range simp: w2)
          then show ?thesis by simp
        qed
        with W1 show ?thesis by simp
      qed
    qed
    have untouched: "SCI_MARKERGET ?w2 view (startLn + len) = SCI_MARKERGET w' view (startLn + len)"
      if h: "\<not> (startLn + len < lineCount (views w view)
                \<and> SCI_MARKERGET w view (startLn + len) AND MM \<noteq> 0)"
    proof -
      from h d(6) have "nextLineMarker d = 0" by auto
      then have "?w2 = ?W1" using w2 by simp
      moreover have "\<not> (view = view \<and> startLn \<le> startLn + len
                          \<and> startLn + len < startLn + int (length (markers d)))"
        using b by simp
      from MARKERGET_setMarkers_outside[OF this]
      have "SCI_MARKERGET ?W1 view (startLn + len) = SCI_MARKERGET w' view (startLn + len)" .
      ultimately show ?thesis by simp
    qed
    have elsewhere: "SCI_MARKERGET ?w2 v l = SCI_MARKERGET w' v l"
      if h: "\<not> (v = view \<and> startLn \<le> l \<and> l \<le> startLn + len)" for v l
    proof -
      from h len have "\<not> (v = view \<and> l = ?b)" using b by auto
      then have "SCI_MARKERGET ?w2 v l = SCI_MARKERGET ?W1 v l" by (rule other)
      moreover from h have "\<not> (v = view \<and> startLn \<le> l \<and> l < startLn + int (length (markers d)))"
        using b by auto
      from MARKERGET_setMarkers_outside[OF this]
      have "SCI_MARKERGET ?W1 v l = SCI_MARKERGET w' v l" .
      ultimately show ?thesis by simp
    qed
    from restored boundary untouched elsewhere bits show ?thesis by blast
  qed
  from p rc main show ?thesis by (intro exI[of _ "t1\<lparr>sections := sections t\<rparr>"] exI[of _ ?w2]) simp
qed

lemma sample_push: "fst (push 255 MAIN_VIEW SC_PERFORMED_USER 3 2 (Some 7) emptyTracker sampleWorld)"
  by (simp add: push_def emptyTracker_def sampleWorld_def Let_def)

text \<open>
  A user deletion of lines 3 and 4 is pushed with the pointer 7; the matching undo pops it
  in a world without markers: pointer 7 comes back, the stack is empty, and lines 3, 4 and
  the boundary line 5 carry their markers again.
\<close>

theorem push_pop_roundtrip_witness:
  "fst (push 255 MAIN_VIEW SC_PERFORMED_USER 3 2 (Some 7) emptyTracker sampleWorld)
   \<and> fst (pop 255 MAIN_VIEW SC_PERFORMED_UNDO 3 pushedTracker clearedWorld) = Some 7
   \<and> sections (fst (snd (pop 255 MAIN_VIEW SC_PERFORMED_UNDO 3 pushedTracker clearedWorld))) = []
   \<and> SCI_MARKERGET (snd (snd (pop 255 MAIN_VIEW SC_PERFORMED_UNDO 3 pushedTracker clearedWorld)))
        MAIN_VIEW 3 AND 255 = 1
   \<and> SCI_MARKERGET (snd (snd (pop 255 MAIN_VIEW SC_PERFORMED_UNDO 3 pushedTracker clearedWorld)))
        MAIN_VIEW 4 AND 255 = 2
   \<and> SCI_MARKERGET (snd (snd (pop 255 MAIN_VIEW SC_PERFORMED_UNDO 3 pushedTracker clearedWorld)))
        MAIN_VIEW 5 AND 255 = 4"
proof -
  let ?p = "push 255 MAIN_VIEW SC_PERFORMED_USER 3 2 (Some 7) emptyTracker sampleWorld"
  have ok: "?p = (True, pushedTracker, snd (snd ?p))"
    using sample_push by (simp add: pushedTracker_def prod_eq_iff)
  have nr: "\<not> RecompareOnChange (Settings sampleWorld)" by (simp add: sampleWorld_def)
  have un: "(if SC_PERFORMED_USER = SC_PERFORMED_UNDO then SC_PERFORMED_REDO else SC_PERFORMED_UNDO)
              = SC_PERFORMED_UNDO"
    by (simp add: SC_PERFORMED_USER_def SC_PERFORMED_UNDO_def)
  from push_pop_roundtrip[OF ok, of clearedWorld] nr un
  obtain t2 w2 where r: "pop 255 MAIN_VIEW SC_PERFORMED_UNDO 3 pushedTracker clearedWorld = (Some 7, t2, w2)"
    "sections t2 = sections emptyTracker"
    "\<forall>i<nat 2. 0 \<le> 3 + int i \<and> 3 + int i < lineCount (views clearedWorld MAIN_VIEW) \<longrightarrow>
        SCI_MARKERGET w2 MAIN_VIEW (3 + int i) AND 255 = SCI_MARKERGET sampleWorld MAIN_VIEW (3 + int i) AND 255"
    "3 + 2 < lineCount (views sampleWorld MAIN_VIEW)
       \<and> SCI_MARKERGET sampleWorld MAIN_VIEW (3 + 2) AND 255 \<noteq> 0
       \<and> 3 + 2 < lineCount (views clearedWorld MAIN_VIEW) \<longrightarrow>
        SCI_MARKERGET w2 MAIN_VIEW (3 + 2) AND 255 = SCI_MARKERGET sampleWorld MAIN_VIEW (3 + 2) AND 255"
    by auto
  have lc: "lineCount (views clearedWorld MAIN_VIEW) = 10" "lineCount (views sampleWorld MAIN_VIEW) = 10"
    by (simp_all add: clearedWorld_def sampleWorld_def)
  from r(3)[rule_format, of 0] r(3)[rule_format, of 1] r(4) lc
  have "SCI_MARKERGET w2 MAIN_VIEW 3 AND 255 = 1" "SCI_MARKERGET w2 MAIN_VIEW 4 AND 255 = 2"
    "SCI_MARKERGET w2 MAIN_VIEW 5 AND 255 = 4"
    by (simp_all add: SCI_MARKERGET_def sampleWorld_def)
  with r(1,2) sample_push show ?thesis by (simp add: emptyTracker_def)
qed

lemma pushedAtFive_eq:
  "pushedAtFive =
     \<lparr>lastPushTimeMark = 1000,
      sections = [\<lparr>startLine = 5, lineReplace = False, restoreAction = SC_PERFORMED_UNDO,
                   markers = [4], nextLineMarker = 0, undoInfo = Some 7\<rparr>]\<rparr>"
  by (simp add: pushedAtFive_def push_def emptyTracker_def sampleWorld_def Let_def
      GetTickCount_def newDeletedSection_def SC_PERFORMED_USER_def SC_PERFORMED_UNDO_def
      SC_PERFORMED_REDO_def getMarkers_def SCI_MARKERGET_def SCI_GETLINECOUNT_def MAIN_VIEW_def)

text \<open>
  The boundary line is not always brought back to what \<open>push\<close> saw. A one-line
  deletion at line 5 is pushed while line 6 carries no marker, so the captured boundary
  bitmap is empty; by the time of the matching pop every line carries marker bit 3. The pop
  returns the pointer and puts marker bit 2 back on line 5, but line 6 keeps bit 3.
\<close>

theorem pop_leaves_boundary_marker:
  "fst (push 255 MAIN_VIEW SC_PERFORMED_USER 5 1 (Some 7) emptyTracker sampleWorld)
   \<and> SCI_MARKERGET sampleWorld MAIN_VIEW 5 AND 255 = 4
   \<and> SCI_MARKERGET sampleWorld MAIN_VIEW 6 AND 255 = 0
   \<and> fst (pop 255 MAIN_VIEW SC_PERFORMED_UNDO 5 pushedAtFive remarkedWorld) = Some 7
   \<and> SCI_MARKERGET (snd (snd (pop 255 MAIN_VIEW SC_PERFORMED_UNDO 5 pushedAtFive remarkedWorld)))
        MAIN_VIEW 5 AND 255 = 4
   \<and> SCI_MARKERGET (snd (snd (pop 255 MAIN_VIEW SC_PERFORMED_UNDO 5 pushedAtFive remarkedWorld)))
        MAIN_VIEW 6 AND 255 = 8"
proof -
  have p: "fst (push 255 MAIN_VIEW SC_PERFORMED_USER 5 1 (Some 7) emptyTracker sampleWorld)"
    by (simp add: push_def emptyTracker_def Let_def)
  have s: "SCI_MARKERGET sampleWorld MAIN_VIEW 5 AND 255 = 4"
    "SCI_MARKERGET sampleWorld MAIN_VIEW 6 AND 255 = 0"
    by (simp_all add: SCI_MARKERGET_def sampleWorld_def)
  have q: "pop 255 MAIN_VIEW SC_PERFORMED_UNDO 5 pushedAtFive remarkedWorld
             = (Some 7, pushedAtFive\<lparr>sections := []\<rparr>,
                setMarkers 255 MAIN_VIEW 5 [4] remarkedWorld)"
    by (simp add: pop_def pushedAtFive_eq Let_def)
  have lc: "lineCount (views remarkedWorld MAIN_VIEW) = 10"
    by (simp add: remarkedWorld_def sampleWorld_def)
  have r: "SCI_MARKERGET remarkedWorld MAIN_VIEW 5 = 8" "SCI_MARKERGET remarkedWorld MAIN_VIEW 6 = 8"
    by (simp_all add: SCI_MARKERGET_def remarkedWorld_def sampleWorld_def)
  have a: "SCI_MARKERGET (setMarkers 255 MAIN_VIEW 5 [4] remarkedWorld) MAIN_VIEW 5
             = (SCI_MARKERGET remarkedWorld MAIN_VIEW 5 AND NOT 255) OR [4] ! nat (5 - 5)"
    by (rule MARKERGET_setMarkers_inside) (simp_all add: lc)
  have b: "SCI_MARKERGET (setMarkers 255 MAIN_VIEW 5 [4] remarkedWorld) MAIN_VIEW 6
             = SCI_MARKERGET remarkedWorld MAIN_VIEW 6"
    by (rule MARKERGET_setMarkers_outside) simp
  from p s show ?thesis unfolding q by (simp add: a b r del: setMarkers.simps)
qed

text \<open>
  What \<open>pop\<close> does without a matching entry: nothing on an empty stack or another
  start line; on another action tag it returns nothing, keeps the entry and flags it as a
  line replacement when the tick count is below the push mark plus 40. As long as the
  32-bit tick counter does not wrap between the push and 40 ms after it, that test is
  "less than 40 ms since the push".
\<close>

lemma pop_noop:
  "sections t = [] \<or> startLine (last (sections t)) \<noteq> startLn \<Longrightarrow>
   pop MM view act startLn t w = (None, t, w)"
  by (auto simp: pop_def Let_def)

lemma pop_mismatch:
  assumes "sections t \<noteq> []" "startLine (last (sections t)) = startLn"
    "restoreAction (last (sections t)) \<noteq> act"
  shows "pop MM view act startLn t w =
           (None,
            (if GetTickCount w < lastPushTimeMark t + 40
             then t\<lparr>sections := butlast (sections t) @ [(last (sections t))\<lparr>lineReplace := True\<rparr>]\<rparr>
             else t),
            w)"
  using assms by (simp add: pop_def Let_def)

lemma tick_window_without_wrap:
  assumes "pushed + 40 < 2 ^ 32" "pushed \<le> now" "now < 2 ^ 32"
  shows "((word_of_nat now :: 32 word) < word_of_nat pushed + 40) = (now - pushed < 40)"
proof -
  have a: "unat (word_of_nat now :: 32 word) = now"
    using assms(3) by (simp add: unat_of_nat)
  have "(word_of_nat pushed + 40 :: 32 word) = word_of_nat (pushed + 40)" by simp
  moreover have "unat (word_of_nat (pushed + 40) :: 32 word) = pushed + 40"
    using assms(1) by (simp only: unat_of_nat) simp
  ultimately have b: "unat (word_of_nat pushed + 40 :: 32 word) = pushed + 40" by simp
  show ?thesis using a b assms(2) by (auto simp: word_less_nat_alt)
qed

text \<open>
  Claim C3, at the wrap-around of the tick counter. \<^verbatim>\<open>GetTickCount\<close> is a 32-bit
  counter of milliseconds and \<^verbatim>\<open>lastPushTimeMark + 40\<close> wraps with it. A push at
  tick \<open>0xFFFFFFF0\<close> followed, five milliseconds later, by an insert whose action tag
  differs from the recorded one: \<open>pop\<close> returns nothing and keeps the entry, but does
  not flag it as the delete-half of a replace, although the pop comes within 40 ms of the
  push. The same pop five milliseconds after a push at tick 1000 does flag it.
\<close>

theorem pop_tick_wraparound:
  "fst (push 255 MAIN_VIEW SC_PERFORMED_USER 3 2 None emptyTracker (sampleWorld\<lparr>clock := 4294967280\<rparr>))
   \<and> lastPushTimeMark pushedBeforeWrap = 0xFFFFFFF0
   \<and> restoreAction (last (sections pushedBeforeWrap)) \<noteq> SC_PERFORMED_USER
   \<and> (4294967285 :: nat) - 4294967280 < 40
   \<and> pop 255 MAIN_VIEW SC_PERFORMED_USER 3 pushedBeforeWrap (sampleWorld\<lparr>clock := 4294967285\<rparr>)
       = (None, pushedBeforeWrap, sampleWorld\<lparr>clock := 4294967285\<rparr>)
   \<and> \<not> lineReplace (last (sections pushedBeforeWrap))"
  by (simp add: pop_def push_def pushedBeforeWrap_def emptyTracker_def sampleWorld_def Let_def
      GetTickCount_def newDeletedSection_def SC_PERFORMED_USER_def SC_PERFORMED_UNDO_def
      SC_PERFORMED_REDO_def)

lemma pop_flags_replace_in_window:
  "lineReplace (last (sections (fst (snd
     (pop 255 MAIN_VIEW SC_PERFORMED_USER 3 pushedTracker (sampleWorld\<lparr>clock := 1005\<rparr>))))))"
  by (simp add: pop_def push_def pushedTracker_def emptyTracker_def sampleWorld_def Let_def
      GetTickCount_def newDeletedSection_def SC_PERFORMED_USER_def SC_PERFORMED_UNDO_def
      SC_PERFORMED_REDO_def)

section \<open>Properties of the modification handler\<close>

lemma Settings_pop [simp]: "Settings (snd (snd (pop MM view act startLn t w))) = Settings w"
  by (simp add: pop_def Let_def)


lemma setCompareDirty_fields [simp]:
  "selections (setCompareDirty p) = selections p"
  "selectionCompare (setCompareDirty p) = selectionCompare p"
  "inEqualizeMode (setCompareDirty p) = inEqualizeMode p"
  "alignmentInfo (setCompareDirty p) = alignmentInfo p"
  by (simp_all add: setCompareDirty_def)

lemma dirtyOnChange_fields [simp]:
  "selections (fst (dirtyOnChange S n view nr undo sl p)) = selections p"
  "selectionCompare (fst (dirtyOnChange S n view nr undo sl p)) = selectionCompare p"
  "inEqualizeMode (fst (dirtyOnChange S n view nr undo sl p)) = inEqualizeMode p"
  "alignmentInfo (fst (dirtyOnChange S n view nr undo sl p)) = alignmentInfo p"
  by (simp_all add: dirtyOnChange_def Let_def)

lemma adjustSelections_fields [simp]:
  "selectionCompare (fst (adjustSelections n view sl a p)) = selectionCompare p"
  "inEqualizeMode (fst (adjustSelections n view sl a p)) = inEqualizeMode p"
  "alignmentInfo (fst (adjustSelections n view sl a p)) = alignmentInfo p"
  by (simp_all add: adjustSelections_def Let_def)


lemma lineFromPosition_setLineMarkers [simp]:
  "lineFromPosition (views (setLineMarkers view ln m w) v) = lineFromPosition (views w v)"
  by (simp add: setLineMarkers_def)

lemma lineFromPosition_clearMarks [simp]:
  "lineFromPosition (views (clearMarks MM view ln w) v) = lineFromPosition (views w v)"
  by (simp add: clearMarks_def)

lemma lineFromPosition_MARKERADDSET [simp]:
  "lineFromPosition (views (SCI_MARKERADDSET view ln m w) v) = lineFromPosition (views w v)"
  by (simp add: SCI_MARKERADDSET_def)

lemma lineFromPosition_setMarkers [simp]:
  "lineFromPosition (views (setMarkers MM view s ms w) v) = lineFromPosition (views w v)"
  by (induction ms arbitrary: s w) (simp_all add: Let_def)

lemma LINEFROMPOSITION_pop [simp]:
  "SCI_LINEFROMPOSITION (snd (snd (pop MM view act startLn t w))) v pos = SCI_LINEFROMPOSITION w v pos"
  by (simp add: pop_def Let_def SCI_LINEFROMPOSITION_def)









lemma adjustSelections_insert_valid:
  assumes "linesAdded n > 0" "fst (selections p view) \<le> snd (selections p view)"
  shows "fst (selections (fst (adjustSelections n view sl a p)) view)
           \<le> snd (selections (fst (adjustSelections n view sl a p)) view)"
  using assms by (auto simp: adjustSelections_def Let_def)





section \<open>Properties of navigation\<close>

lemma other_other: "v = MAIN_VIEW \<or> v = SUB_VIEW \<Longrightarrow> getOtherViewId (getOtherViewId v) = v"
  by (auto simp: getOtherViewId_def MAIN_VIEW_def SUB_VIEW_def)

lemma other_valid: "getOtherViewId v = MAIN_VIEW \<or> getOtherViewId v = SUB_VIEW"
  by (simp add: getOtherViewId_def)

lemma valid_marker:
  assumes "validScreen e" "v = MAIN_VIEW \<or> v = SUB_VIEW"
  shows "SCI_MARKERNEXT e v s = - 1 \<or> lineOk e v (SCI_MARKERNEXT e v s)"
    and "SCI_MARKERPREVIOUS e v s = - 1 \<or> lineOk e v (SCI_MARKERPREVIOUS e v s)"
  using assms unfolding validScreen_def lineOk_def by blast+

lemma valid_matching:
  assumes "validScreen e" "v = MAIN_VIEW \<or> v = SUB_VIEW"
  shows "lineOk e (getOtherViewId v) (otherViewMatchingLine e v l)"
  using assms unfolding validScreen_def lineOk_def by blast

lemma valid_lines:
  assumes "validScreen e" "v = MAIN_VIEW \<or> v = SUB_VIEW"
  shows "lineOk e v (getCurrentLine e v)" "lineOk e v (getFirstLine e v)"
    "lineOk e v (getLastLine e v)"
  using assms unfolding validScreen_def lineOk_def by blast+

lemma valid_view: "validScreen e \<Longrightarrow> currentViewId e = MAIN_VIEW \<or> currentViewId e = SUB_VIEW"
  unfolding validScreen_def by blast

lemma nextMarkers_valid:
  assumes "validScreen e"
  shows "(fst (nextMarkers e m s dn) = - 1 \<or> lineOk e MAIN_VIEW (fst (nextMarkers e m s dn)))
       \<and> (snd (nextMarkers e m s dn) = - 1 \<or> lineOk e SUB_VIEW (snd (nextMarkers e m s dn)))"
proof -
  have a: "SCI_MARKERNEXT e MAIN_VIEW x = - 1 \<or> lineOk e MAIN_VIEW (SCI_MARKERNEXT e MAIN_VIEW x)"
    "SCI_MARKERPREVIOUS e MAIN_VIEW x = - 1 \<or> lineOk e MAIN_VIEW (SCI_MARKERPREVIOUS e MAIN_VIEW x)"
    "SCI_MARKERNEXT e SUB_VIEW x = - 1 \<or> lineOk e SUB_VIEW (SCI_MARKERNEXT e SUB_VIEW x)"
    "SCI_MARKERPREVIOUS e SUB_VIEW x = - 1 \<or> lineOk e SUB_VIEW (SCI_MARKERPREVIOUS e SUB_VIEW x)"
    for x
    using valid_marker[OF assms] by simp_all
  show ?thesis
    unfolding nextMarkers_def Let_def fst_conv snd_conv
    using a by (cases dn) simp_all
qed

lemma jumpTarget_valid:
  assumes v: "validScreen e" and v0: "view0 = MAIN_VIEW \<or> view0 = SUB_VIEW"
    and l0: "line0 = - 1 \<or> lineOk e view0 line0"
    and ol: "otherLine = - 1 \<or> lineOk e (getOtherViewId view0) otherLine"
    and some: "\<not> (line0 < 0 \<and> otherLine < 0)"
  shows "(fst (fst (jumpTarget e view0 line0 otherLine dn)) = MAIN_VIEW
           \<or> fst (fst (jumpTarget e view0 line0 otherLine dn)) = SUB_VIEW)
       \<and> reached e (\<not> dn) (fst (fst (jumpTarget e view0 line0 otherLine dn)))
           (snd (fst (jumpTarget e view0 line0 otherLine dn)))"
proof -
  let ?ov = "getOtherViewId view0"
  define sw where "sw =
            (if line0 < 0 then True
             else if otherLine \<ge> 0 then
               (let visibleLine = SCI_VISIBLEFROMDOCLINE e view0 line0;
                    otherVisibleLine = SCI_VISIBLEFROMDOCLINE e ?ov otherLine
                in if dn then otherVisibleLine < visibleLine else otherVisibleLine > visibleLine)
             else False)"
  define view where "view = (if sw \<and> findUniqueMode e then ?ov else view0)"
  define line1 where "line1 = (if sw
                   then (if findUniqueMode e then otherLine
                         else otherViewMatchingLine e ?ov otherLine)
                   else line0)"
  define line2 where "line2 = (if \<not> dn \<and> \<not> ShowOnlyDiffs (Settings (doc e)) \<and> isLineAnnotated e view line1
                   then line1 + 1 else line1)"
  have res: "fst (jumpTarget e view0 line0 otherLine dn) = (view, line2)"
    by (simp add: jumpTarget_def Let_def sw_def view_def line1_def line2_def)
  have ovv: "?ov = MAIN_VIEW \<or> ?ov = SUB_VIEW" by (rule other_valid)
  have vv: "view = MAIN_VIEW \<or> view = SUB_VIEW" using v0 ovv by (simp add: view_def)
  have sw_other: "0 \<le> otherLine" if sw
  proof (cases "line0 < 0")
    case True
    with some show ?thesis by simp
  next
    case False
    with that show ?thesis by (simp add: sw_def split: if_splits)
  qed
  have l1: "lineOk e view line1"
  proof (cases sw)
    case True
    then have o: "0 \<le> otherLine" by (rule sw_other)
    show ?thesis
    proof (cases "findUniqueMode e")
      case fu: True
      from o ol have "lineOk e ?ov otherLine" by auto
      with True fu show ?thesis by (simp add: view_def line1_def)
    next
      case False
      have "lineOk e (getOtherViewId ?ov) (otherViewMatchingLine e ?ov otherLine)"
        by (rule valid_matching[OF v ovv])
      with True False other_other[OF v0] show ?thesis by (simp add: view_def line1_def)
    qed
  next
    case False
    then have "\<not> line0 < 0" by (auto simp: sw_def)
    with l0 have "lineOk e view0 line0" by auto
    with False show ?thesis by (simp add: view_def line1_def)
  qed
  have "reached e (\<not> dn) view line2"
  proof (cases "\<not> dn \<and> \<not> ShowOnlyDiffs (Settings (doc e)) \<and> isLineAnnotated e view line1")
    case True
    then have l2: "line2 = line1 + 1" by (simp add: line2_def)
    show ?thesis
    proof (cases "line1 + 1 < SCI_GETLINECOUNT (doc e) view")
      case lt: True
      with l1 l2 show ?thesis by (simp add: reached_def lineOk_def)
    next
      case False
      with l1 have "line1 = SCI_GETLINECOUNT (doc e) view - 1" by (simp add: lineOk_def)
      with True l2 show ?thesis by (simp add: reached_def)
    qed
  next
    case False
    then have "line2 = line1" by (auto simp: line2_def)
    with l1 show ?thesis by (simp add: reached_def)
  qed
  with vv res show ?thesis by simp
qed

lemma finishJump_result:
  "fst (finishJump e view ln dn b) = (view, ln)
   \<or> (FollowingCaret (Settings (doc e)) \<and> fst (finishJump e view ln dn b) = (view, - 1))"
  by (simp add: finishJump_def Let_def)

lemma navOk_mono:
  assumes "navOk e up wrap none r" "up \<longrightarrow> up'" "wrap \<longrightarrow> wrap'" "none \<longrightarrow> none'"
  shows "navOk e up' wrap' none' r"
  using assms unfolding navOk_def reached_def by blast

lemma navOk_found:
  assumes "navOk e up wrap none r" "0 \<le> fst r"
  shows "navOk e up wrap none' r"
  using assms unfolding navOk_def by auto

lemma jumpToNextChange_valid:
  assumes v: "validScreen e"
  shows "navOk e (\<not> dn) (\<not> g \<and> m < 0 \<and> s < 0)
           (\<not> hasCompare e \<or> (fst (nextMarkers e m s dn) < 0 \<and> snd (nextMarkers e m s dn) < 0))
           (fst (jumpToNextChange e m s dn g b))"
proof (cases "hasCompare e")
  case False
  then show ?thesis by (simp add: jumpToNextChange_def navOk_def)
next
  case hc: True
  let ?cur_view = "currentViewId e"
  let ?ov = "getOtherViewId ?cur_view"
  have v0: "?cur_view = MAIN_VIEW \<or> ?cur_view = SUB_VIEW" by (rule valid_view[OF v])
  let ?edge = "if dn then getLastLine e ?cur_view else getFirstLine e ?cur_view"
  let ?cur = "if FollowingCaret (Settings (doc e)) then getCurrentLine e ?cur_view else ?edge"
  let ?blank = "\<not> findUniqueMode e \<and> \<not> g
                 \<and> \<not> isLineMarked e ?cur_view ?cur
                 \<and> isAdjacentAnnotation e ?cur_view ?cur dn
                 \<and> \<not> isVisibleAdjacentAnnotation e ?cur_view ?cur dn
                 \<and> isLineMarked e ?ov (otherViewMatchingLine e ?cur_view ?cur + 1)"
  show ?thesis
  proof (cases ?blank)
    case True
    then have "fst (jumpToNextChange e m s dn g b) = (?cur_view, ?cur)"
      using hc by (simp only: jumpToNextChange_def Let_def simp_thms if_True if_False fst_conv)
    moreover have "lineOk e ?cur_view ?cur"
      using valid_lines[OF v v0] by simp
    ultimately show ?thesis using v0 by (simp add: navOk_def reached_def)
  next
    case nb: False
    let ?nxt = "nextMarkers e m s dn"
    let ?cur_line = "if ?cur_view = MAIN_VIEW then fst ?nxt else snd ?nxt"
    let ?otherLine = "if ?cur_view = MAIN_VIEW then snd ?nxt else fst ?nxt"
    show ?thesis
    proof (cases "?cur_line < 0 \<and> ?otherLine < 0")
      case True
      then have "fst (jumpToNextChange e m s dn g b) = (- 1, - 1)"
        using hc nb by (simp only: jumpToNextChange_def Let_def simp_thms if_True if_False fst_conv)
      moreover from True have "fst ?nxt < 0 \<and> snd ?nxt < 0" by (auto split: if_splits)
      ultimately show ?thesis by (simp add: navOk_def)
    next
      case some: False
      let ?tg = "jumpTarget e ?cur_view ?cur_line ?otherLine dn"
      let ?view = "fst (fst ?tg)"
      let ?ln = "snd (fst ?tg)"
      have l0: "?cur_line = - 1 \<or> lineOk e ?cur_view ?cur_line"
        and ol: "?otherLine = - 1 \<or> lineOk e ?ov ?otherLine"
        using nextMarkers_valid[OF v, of m s dn] v0
        by (auto simp: getOtherViewId_def MAIN_VIEW_def SUB_VIEW_def)
      from jumpTarget_valid[OF v v0 l0 ol some]
      have tv: "?view = MAIN_VIEW \<or> ?view = SUB_VIEW" and tr: "reached e (\<not> dn) ?view ?ln"
        by simp_all
      let ?wb = "if \<not> g \<and> (m < 0 \<and> s < 0) then blinkAfterWrap e ?view ?ln dn else None"
      have "(fst (jumpToNextChange e m s dn g b) = (?view, - 1)
              \<and> (FollowingCaret (Settings (doc e)) \<or> (\<not> g \<and> m < 0 \<and> s < 0)))
            \<or> fst (jumpToNextChange e m s dn g b) = (?view, ?ln)"
      proof (cases ?wb)
        case (Some lineToBlink)
        then have "fst (jumpToNextChange e m s dn g b) = (?view, - 1)"
          using hc nb some
          by (simp only: jumpToNextChange_def Let_def simp_thms if_True if_False fst_conv
              option.case)
        moreover from Some have "\<not> g \<and> m < 0 \<and> s < 0" by (simp split: if_splits)
        ultimately show ?thesis by simp
      next
        case None
        then have "fst (jumpToNextChange e m s dn g b) = fst (finishJump e ?view ?ln dn b)"
          using hc nb some
          by (simp only: jumpToNextChange_def Let_def simp_thms if_True if_False fst_conv
              option.case)
        with finishJump_result[of e ?view ?ln dn b] show ?thesis by auto
      qed
      with tv tr show ?thesis by (auto simp: navOk_def)
    qed
  qed
qed

lemma jumpToNextChange_no_compare:
  "\<not> hasCompare e \<Longrightarrow> fst (jumpToNextChange e m s dn g b) = (- 1, - 1)"
  by (simp add: jumpToNextChange_def)

lemma jumpToFirstChange_valid:
  assumes "validScreen e"
  shows "navOk e False False
           (\<not> hasCompare e \<or> (fst (nextMarkers e 0 0 True) < 0 \<and> snd (nextMarkers e 0 0 True) < 0))
           (fst (jumpToFirstChange e g b))"
proof -
  have "fst (jumpToFirstChange e g b) = fst (jumpToNextChange e 0 0 True g b)"
    by (simp add: jumpToFirstChange_def Let_def)
  moreover have "navOk e False False
           (\<not> hasCompare e \<or> (fst (nextMarkers e 0 0 True) < 0 \<and> snd (nextMarkers e 0 0 True) < 0))
           (fst (jumpToNextChange e 0 0 True g b))"
    by (rule navOk_mono[OF jumpToNextChange_valid[OF assms]]) simp_all
  ultimately show ?thesis by simp
qed

lemma jumpToLastChange_valid:
  assumes "validScreen e"
  shows "navOk e True False
           (\<not> hasCompare e
            \<or> (fst (nextMarkers e (SCI_GETLINECOUNT (doc e) MAIN_VIEW)
                      (SCI_GETLINECOUNT (doc e) SUB_VIEW) False) < 0
                 \<and> snd (nextMarkers e (SCI_GETLINECOUNT (doc e) MAIN_VIEW)
                          (SCI_GETLINECOUNT (doc e) SUB_VIEW) False) < 0))
           (fst (jumpToLastChange e g b))"
proof -
  have lc: "0 < SCI_GETLINECOUNT (doc e) MAIN_VIEW"
    using valid_lines(1)[OF assms, of MAIN_VIEW] by (simp add: lineOk_def)
  have "fst (jumpToLastChange e g b)
          = fst (jumpToNextChange e (SCI_GETLINECOUNT (doc e) MAIN_VIEW)
                   (SCI_GETLINECOUNT (doc e) SUB_VIEW) False g b)"
    by (simp add: jumpToLastChange_def Let_def)
  moreover have "navOk e True False
           (\<not> hasCompare e
            \<or> (fst (nextMarkers e (SCI_GETLINECOUNT (doc e) MAIN_VIEW)
                      (SCI_GETLINECOUNT (doc e) SUB_VIEW) False) < 0
                 \<and> snd (nextMarkers e (SCI_GETLINECOUNT (doc e) MAIN_VIEW)
                          (SCI_GETLINECOUNT (doc e) SUB_VIEW) False) < 0))
           (fst (jumpToNextChange e (SCI_GETLINECOUNT (doc e) MAIN_VIEW)
                   (SCI_GETLINECOUNT (doc e) SUB_VIEW) False g b))"
    by (rule navOk_mono[OF jumpToNextChange_valid[OF assms]]) (use lc in simp_all)
  ultimately show ?thesis by simp
qed

lemma navOk_current:
  assumes "validScreen e"
  shows "navOk e up wrap none (currentViewId e, getCurrentLine e (currentViewId e))"
  using valid_lines(1)[OF assms valid_view[OF assms]] valid_view[OF assms]
  by (simp add: navOk_def reached_def)

lemma searchFromBias_valid:
  assumes v: "validScreen e"
  shows "navOk e (\<not> dn)
           ((\<exists>l. (if dn then getNextUnmarkedLine e MAIN_VIEW l
                    else getPrevUnmarkedLine e MAIN_VIEW l) < 0)
            \<and> (\<exists>l. (if dn then getNextUnmarkedLine e SUB_VIEW l
                      else getPrevUnmarkedLine e SUB_VIEW l) < 0))
           True (fst (searchFromBias e dn))"
proof -
  let ?W = "(\<exists>l. (if dn then getNextUnmarkedLine e MAIN_VIEW l
                    else getPrevUnmarkedLine e MAIN_VIEW l) < 0)
            \<and> (\<exists>l. (if dn then getNextUnmarkedLine e SUB_VIEW l
                      else getPrevUnmarkedLine e SUB_VIEW l) < 0)"
  have j: "navOk e (\<not> dn) ?W True
             (fst (jumpToNextChange e
                     (if dn then getNextUnmarkedLine e MAIN_VIEW a
                      else getPrevUnmarkedLine e MAIN_VIEW a)
                     (if dn then getNextUnmarkedLine e SUB_VIEW c
                      else getPrevUnmarkedLine e SUB_VIEW c) dn False False))" for a c
    by (rule navOk_mono[OF jumpToNextChange_valid[OF v]]) auto
  have "fst (searchFromBias e dn) = (currentViewId e, getCurrentLine e (currentViewId e))
        \<or> (\<exists>a c. fst (searchFromBias e dn)
                    = fst (jumpToNextChange e
                             (if dn then getNextUnmarkedLine e MAIN_VIEW a
                              else getPrevUnmarkedLine e MAIN_VIEW a)
                             (if dn then getNextUnmarkedLine e SUB_VIEW c
                              else getPrevUnmarkedLine e SUB_VIEW c) dn False False))"
  proof (cases "FollowingCaret (Settings (doc e)) \<and> isLineMarked e (currentViewId e)
                   (getCurrentLine e (currentViewId e))
                 \<and> (if dn then getCurrentLine e (currentViewId e) > getLastLine e (currentViewId e)
                      else getCurrentLine e (currentViewId e) < getFirstLine e (currentViewId e))")
    case True
    then have "fst (searchFromBias e dn) = (currentViewId e, getCurrentLine e (currentViewId e))"
      by (cases dn) (simp_all add: searchFromBias_def Let_def)
    then show ?thesis by simp
  next
    case False
    then have "\<exists>a c. fst (searchFromBias e dn)
                    = fst (jumpToNextChange e
                             (if dn then getNextUnmarkedLine e MAIN_VIEW a
                              else getPrevUnmarkedLine e MAIN_VIEW a)
                             (if dn then getNextUnmarkedLine e SUB_VIEW c
                              else getPrevUnmarkedLine e SUB_VIEW c) dn False False)"
      by (cases dn; cases "FollowingCaret (Settings (doc e))")
         (auto simp: searchFromBias_def Let_def intro!: exI)
    then show ?thesis by simp
  qed
  then show ?thesis
  proof
    assume "fst (searchFromBias e dn) = (currentViewId e, getCurrentLine e (currentViewId e))"
    with navOk_current[OF v, of "\<not> dn" ?W True] show ?thesis by simp
  next
    assume "\<exists>a c. fst (searchFromBias e dn)
                    = fst (jumpToNextChange e
                             (if dn then getNextUnmarkedLine e MAIN_VIEW a
                              else getPrevUnmarkedLine e MAIN_VIEW a)
                             (if dn then getNextUnmarkedLine e SUB_VIEW c
                              else getPrevUnmarkedLine e SUB_VIEW c) dn False False)"
    then obtain a c where r: "fst (searchFromBias e dn)
                    = fst (jumpToNextChange e
                             (if dn then getNextUnmarkedLine e MAIN_VIEW a
                              else getPrevUnmarkedLine e MAIN_VIEW a)
                             (if dn then getNextUnmarkedLine e SUB_VIEW c
                              else getPrevUnmarkedLine e SUB_VIEW c) dn False False)"
      by (elim exE)
    show ?thesis unfolding r by (rule j)
  qed
qed

lemma jumpToChange_valid:
  assumes v: "validScreen e"
  shows "navOk e (\<not> (dn \<and> wrapAround))
           ((\<exists>l. (if dn then getNextUnmarkedLine e MAIN_VIEW l
                    else getPrevUnmarkedLine e MAIN_VIEW l) < 0)
            \<and> (\<exists>l. (if dn then getNextUnmarkedLine e SUB_VIEW l
                      else getPrevUnmarkedLine e SUB_VIEW l) < 0))
           (\<not> hasCompare e
            \<or> (if dn = wrapAround
                then fst (nextMarkers e 0 0 True) < 0 \<and> snd (nextMarkers e 0 0 True) < 0
                else fst (nextMarkers e (SCI_GETLINECOUNT (doc e) MAIN_VIEW)
                            (SCI_GETLINECOUNT (doc e) SUB_VIEW) False) < 0
                     \<and> snd (nextMarkers e (SCI_GETLINECOUNT (doc e) MAIN_VIEW)
                                (SCI_GETLINECOUNT (doc e) SUB_VIEW) False) < 0))
           (fst (jumpToChange e dn wrapAround))"
proof (cases "fst (fst (searchFromBias e dn)) < 0")
  case False
  then have "fst (jumpToChange e dn wrapAround) = fst (searchFromBias e dn)"
    by (simp add: jumpToChange_def Let_def)
  moreover from False have "0 \<le> fst (fst (searchFromBias e dn))" by simp
  from navOk_found[OF searchFromBias_valid[OF v, of dn] this]
  have "navOk e (\<not> dn)
           ((\<exists>l. (if dn then getNextUnmarkedLine e MAIN_VIEW l
                    else getPrevUnmarkedLine e MAIN_VIEW l) < 0)
            \<and> (\<exists>l. (if dn then getNextUnmarkedLine e SUB_VIEW l
                      else getPrevUnmarkedLine e SUB_VIEW l) < 0))
           (\<not> hasCompare e
            \<or> (if dn = wrapAround
                then fst (nextMarkers e 0 0 True) < 0 \<and> snd (nextMarkers e 0 0 True) < 0
                else fst (nextMarkers e (SCI_GETLINECOUNT (doc e) MAIN_VIEW)
                            (SCI_GETLINECOUNT (doc e) SUB_VIEW) False) < 0
                     \<and> snd (nextMarkers e (SCI_GETLINECOUNT (doc e) MAIN_VIEW)
                                (SCI_GETLINECOUNT (doc e) SUB_VIEW) False) < 0))
           (fst (searchFromBias e dn))" .
  then have "navOk e (\<not> (dn \<and> wrapAround))
           ((\<exists>l. (if dn then getNextUnmarkedLine e MAIN_VIEW l
                    else getPrevUnmarkedLine e MAIN_VIEW l) < 0)
            \<and> (\<exists>l. (if dn then getNextUnmarkedLine e SUB_VIEW l
                      else getPrevUnmarkedLine e SUB_VIEW l) < 0))
           (\<not> hasCompare e
            \<or> (if dn = wrapAround
                then fst (nextMarkers e 0 0 True) < 0 \<and> snd (nextMarkers e 0 0 True) < 0
                else fst (nextMarkers e (SCI_GETLINECOUNT (doc e) MAIN_VIEW)
                            (SCI_GETLINECOUNT (doc e) SUB_VIEW) False) < 0
                     \<and> snd (nextMarkers e (SCI_GETLINECOUNT (doc e) MAIN_VIEW)
                                (SCI_GETLINECOUNT (doc e) SUB_VIEW) False) < 0))
           (fst (searchFromBias e dn))"
    by (rule navOk_mono) simp_all
  ultimately show ?thesis by simp
next
  case True
  show ?thesis
  proof (cases "dn = wrapAround")
    case eq: True
    with True have r: "fst (jumpToChange e dn wrapAround) = fst (jumpToFirstChange e wrapAround wrapAround)"
      by (auto simp: jumpToChange_def Let_def)
    show ?thesis unfolding r
      by (rule navOk_mono[OF jumpToFirstChange_valid[OF v]]) (use eq in simp_all)
  next
    case ne: False
    with True have r: "fst (jumpToChange e dn wrapAround) = fst (jumpToLastChange e wrapAround wrapAround)"
      by (auto simp: jumpToChange_def Let_def)
    show ?thesis unfolding r
      by (rule navOk_mono[OF jumpToLastChange_valid[OF v]]) (use ne in auto)
  qed
qed

lemma valid_navScreen: "validScreen navScreen"
  unfolding validScreen_def
  by (simp add: navScreen_def navWorld_def SCI_GETLINECOUNT_def getOtherViewId_def
      MAIN_VIEW_def SUB_VIEW_def min_def)

lemma navScreen_wrap: "fst (jumpToChange navScreen True True) = (MAIN_VIEW, 3)"
  by (simp add: jumpToChange_def searchFromBias_def jumpToFirstChange_def jumpToNextChange_def
      nextMarkers_def jumpTarget_def finishJump_def Let_def
      navScreen_def navWorld_def SCI_GETLINECOUNT_def getOtherViewId_def MAIN_VIEW_def SUB_VIEW_def)

text \<open>
  Claim C5, as the code has it. On a screen whose answers are lines of the documents, each
  of \<open>jumpToNextChange\<close>, \<open>jumpToFirstChange\<close>, \<open>jumpToLastChange\<close> and
  \<open>jumpToChange\<close> returns the pair (-1, -1) or one of the two views with a line, and
  the line is a line of that view, between 0 and its line count minus one, with two
  exceptions. The line is -1 only in follow-caret mode, or for \<open>jumpToNextChange\<close>
  when both start lines are negative and \<open>goToCornerDiff\<close> is off, or for
  \<open>jumpToChange\<close> when the search for the next (moving up: previous) unmarked line
  answers a negative line in both views. The line is the line count of the view only for a
  search that moves upwards (\<open>jumpToNextChange\<close> with \<open>down\<close> off,
  \<open>jumpToLastChange\<close>, \<open>jumpToChange\<close> unless \<open>down\<close> and
  \<open>wrapAround\<close> are both on), outside show-only-diffs mode, when the last line of
  the view is annotated. The pair (-1, -1) is returned only when there is no compared pair
  or the marker search of the command finds no line in either view: the search from the
  start lines for \<open>jumpToNextChange\<close>, from line 0 downwards for
  \<open>jumpToFirstChange\<close>, from the line counts upwards for \<open>jumpToLastChange\<close>,
  and for \<open>jumpToChange\<close> the one of the two that it issues after the search from
  the bias line. Without a compared pair the first three commands return (-1, -1).
\<close>

theorem navigation_line_in_range:
  assumes "validScreen e"
  shows "navOk e (\<not> down) (\<not> goToCornerDiff \<and> mainStartLine < 0 \<and> subStartLine < 0)
           (\<not> hasCompare e
            \<or> (fst (nextMarkers e mainStartLine subStartLine down) < 0
                 \<and> snd (nextMarkers e mainStartLine subStartLine down) < 0))
           (fst (jumpToNextChange e mainStartLine subStartLine down goToCornerDiff doNotBlink))
       \<and> navOk e False False
           (\<not> hasCompare e
            \<or> (fst (nextMarkers e 0 0 True) < 0 \<and> snd (nextMarkers e 0 0 True) < 0))
           (fst (jumpToFirstChange e goToCornerDiff doNotBlink))
       \<and> navOk e True False
           (\<not> hasCompare e
            \<or> (fst (nextMarkers e (SCI_GETLINECOUNT (doc e) MAIN_VIEW)
                      (SCI_GETLINECOUNT (doc e) SUB_VIEW) False) < 0
                 \<and> snd (nextMarkers e (SCI_GETLINECOUNT (doc e) MAIN_VIEW)
                          (SCI_GETLINECOUNT (doc e) SUB_VIEW) False) < 0))
           (fst (jumpToLastChange e goToCornerDiff doNotBlink))
       \<and> navOk e (\<not> (down \<and> wrapAround))
           ((\<exists>l. (if down then getNextUnmarkedLine e MAIN_VIEW l
                    else getPrevUnmarkedLine e MAIN_VIEW l) < 0)
            \<and> (\<exists>l. (if down then getNextUnmarkedLine e SUB_VIEW l
                      else getPrevUnmarkedLine e SUB_VIEW l) < 0))
           (\<not> hasCompare e
            \<or> (if down = wrapAround
                then fst (nextMarkers e 0 0 True) < 0 \<and> snd (nextMarkers e 0 0 True) < 0
                else fst (nextMarkers e (SCI_GETLINECOUNT (doc e) MAIN_VIEW)
                            (SCI_GETLINECOUNT (doc e) SUB_VIEW) False) < 0
                     \<and> snd (nextMarkers e (SCI_GETLINECOUNT (doc e) MAIN_VIEW)
                                (SCI_GETLINECOUNT (doc e) SUB_VIEW) False) < 0))
           (fst (jumpToChange e down wrapAround))
       \<and> (\<not> hasCompare e \<longrightarrow>
             fst (jumpToNextChange e mainStartLine subStartLine down goToCornerDiff doNotBlink)
               = (- 1, - 1)
             \<and> fst (jumpToFirstChange e goToCornerDiff doNotBlink) = (- 1, - 1)
             \<and> fst (jumpToLastChange e goToCornerDiff doNotBlink) = (- 1, - 1))"
proof (intro conjI impI)
  show "navOk e (\<not> down) (\<not> goToCornerDiff \<and> mainStartLine < 0 \<and> subStartLine < 0)
           (\<not> hasCompare e
            \<or> (fst (nextMarkers e mainStartLine subStartLine down) < 0
                 \<and> snd (nextMarkers e mainStartLine subStartLine down) < 0))
           (fst (jumpToNextChange e mainStartLine subStartLine down goToCornerDiff doNotBlink))"
    by (rule jumpToNextChange_valid[OF assms])
next
  show "navOk e False False
           (\<not> hasCompare e
            \<or> (fst (nextMarkers e 0 0 True) < 0 \<and> snd (nextMarkers e 0 0 True) < 0))
           (fst (jumpToFirstChange e goToCornerDiff doNotBlink))"
    by (rule jumpToFirstChange_valid[OF assms])
next
  show "navOk e True False
           (\<not> hasCompare e
            \<or> (fst (nextMarkers e (SCI_GETLINECOUNT (doc e) MAIN_VIEW)
                      (SCI_GETLINECOUNT (doc e) SUB_VIEW) False) < 0
                 \<and> snd (nextMarkers e (SCI_GETLINECOUNT (doc e) MAIN_VIEW)
                          (SCI_GETLINECOUNT (doc e) SUB_VIEW) False) < 0))
           (fst (jumpToLastChange e goToCornerDiff doNotBlink))"
    by (rule jumpToLastChange_valid[OF assms])
next
  show "navOk e (\<not> (down \<and> wrapAround))
           ((\<exists>l. (if down then getNextUnmarkedLine e MAIN_VIEW l
                    else getPrevUnmarkedLine e MAIN_VIEW l) < 0)
            \<and> (\<exists>l. (if down then getNextUnmarkedLine e SUB_VIEW l
                      else getPrevUnmarkedLine e SUB_VIEW l) < 0))
           (\<not> hasCompare e
            \<or> (if down = wrapAround
                then fst (nextMarkers e 0 0 True) < 0 \<and> snd (nextMarkers e 0 0 True) < 0
                else fst (nextMarkers e (SCI_GETLINECOUNT (doc e) MAIN_VIEW)
                            (SCI_GETLINECOUNT (doc e) SUB_VIEW) False) < 0
                     \<and> snd (nextMarkers e (SCI_GETLINECOUNT (doc e) MAIN_VIEW)
                                (SCI_GETLINECOUNT (doc e) SUB_VIEW) False) < 0))
           (fst (jumpToChange e down wrapAround))"
    by (rule jumpToChange_valid[OF assms])
next
  assume "\<not> hasCompare e"
  then show "fst (jumpToNextChange e mainStartLine subStartLine down goToCornerDiff doNotBlink)
               = (- 1, - 1)"
    by (rule jumpToNextChange_no_compare)
next
  assume "\<not> hasCompare e"
  then show "fst (jumpToFirstChange e goToCornerDiff doNotBlink) = (- 1, - 1)"
    by (simp add: jumpToFirstChange_def Let_def jumpToNextChange_no_compare)
next
  assume "\<not> hasCompare e"
  then show "fst (jumpToLastChange e goToCornerDiff doNotBlink) = (- 1, - 1)"
    by (simp add: jumpToLastChange_def Let_def jumpToNextChange_no_compare)
qed

text \<open>
  On \<open>navScreen\<close> nothing lies below the bias line, and the wrapped jump returns
  line 3 of the main view, within its ten lines.
\<close>

theorem navigation_line_in_range_witness:
  "validScreen navScreen
   \<and> fst (jumpToChange navScreen True True) = (MAIN_VIEW, 3)
   \<and> (3::int) < SCI_GETLINECOUNT (doc navScreen) MAIN_VIEW"
proof -
  from navigation_line_in_range[OF valid_navScreen, of True False 0 0 False True]
  have "navOk navScreen (\<not> (True \<and> True))
           ((\<exists>l. (if True then getNextUnmarkedLine navScreen MAIN_VIEW l
                    else getPrevUnmarkedLine navScreen MAIN_VIEW l) < 0)
            \<and> (\<exists>l. (if True then getNextUnmarkedLine navScreen SUB_VIEW l
                      else getPrevUnmarkedLine navScreen SUB_VIEW l) < 0))
           (\<not> hasCompare navScreen
            \<or> (if True = True
                then fst (nextMarkers navScreen 0 0 True) < 0
                     \<and> snd (nextMarkers navScreen 0 0 True) < 0
                else fst (nextMarkers navScreen (SCI_GETLINECOUNT (doc navScreen) MAIN_VIEW)
                            (SCI_GETLINECOUNT (doc navScreen) SUB_VIEW) False) < 0
                     \<and> snd (nextMarkers navScreen (SCI_GETLINECOUNT (doc navScreen) MAIN_VIEW)
                                (SCI_GETLINECOUNT (doc navScreen) SUB_VIEW) False) < 0))
           (fst (jumpToChange navScreen True True))"
    by (elim conjE)
  then have "reached navScreen False MAIN_VIEW 3"
    unfolding navScreen_wrap navOk_def by (simp add: MAIN_VIEW_def)
  then have "(3::int) < SCI_GETLINECOUNT (doc navScreen) MAIN_VIEW"
    by (simp add: reached_def lineOk_def)
  with valid_navScreen navScreen_wrap show ?thesis by simp
qed

lemma followScreen_first: "fst (jumpToFirstChange followScreen True False) = (MAIN_VIEW, - 1)"
  by (simp add: jumpToFirstChange_def jumpToNextChange_def
      nextMarkers_def jumpTarget_def finishJump_def Let_def followScreen_def
      navScreen_def navWorld_def SCI_GETLINECOUNT_def getOtherViewId_def MAIN_VIEW_def SUB_VIEW_def)

lemma annotatedScreen_last: "fst (jumpToLastChange annotatedScreen False False) = (MAIN_VIEW, 10)"
  by (simp add: jumpToLastChange_def jumpToNextChange_def
      nextMarkers_def jumpTarget_def finishJump_def Let_def annotatedScreen_def
      navScreen_def navWorld_def SCI_GETLINECOUNT_def getOtherViewId_def MAIN_VIEW_def SUB_VIEW_def)

text \<open>
  In follow-caret mode the jump to the first change moves the caret to line 3 and returns
  the main view with the line -1, outside \<open>[0, 9]\<close>. With the last difference on the
  annotated last line 9, the jump to the last change steps over the annotation and returns
  line 10, the line count.
\<close>

theorem jumpToFirstChange_line_sentinel:
  "validScreen followScreen
   \<and> SCI_GETLINECOUNT (doc followScreen) MAIN_VIEW = 10
   \<and> fst (jumpToFirstChange followScreen True False) = (MAIN_VIEW, - 1)
   \<and> validScreen annotatedScreen
   \<and> SCI_GETLINECOUNT (doc annotatedScreen) MAIN_VIEW = 10
   \<and> fst (jumpToLastChange annotatedScreen False False) = (MAIN_VIEW, 10)"
proof -
  have "validScreen followScreen"
    unfolding validScreen_def
    by (simp add: followScreen_def navScreen_def navWorld_def SCI_GETLINECOUNT_def
        getOtherViewId_def MAIN_VIEW_def SUB_VIEW_def min_def)
  moreover have "SCI_GETLINECOUNT (doc followScreen) MAIN_VIEW = 10"
    by (simp add: followScreen_def navScreen_def navWorld_def SCI_GETLINECOUNT_def)
  moreover have "validScreen annotatedScreen"
    unfolding validScreen_def
    by (simp add: annotatedScreen_def navScreen_def navWorld_def SCI_GETLINECOUNT_def
        getOtherViewId_def MAIN_VIEW_def SUB_VIEW_def min_def)
  moreover have "SCI_GETLINECOUNT (doc annotatedScreen) MAIN_VIEW = 10"
    by (simp add: annotatedScreen_def navScreen_def navWorld_def SCI_GETLINECOUNT_def)
  ultimately show ?thesis using followScreen_first annotatedScreen_last by simp
qed












text \<open>
  The search of \<open>jumpToFirstChange\<close> starts at line 0 without being a corner search
  (\<open>isCornerDiff\<close> needs negative start lines), so a marker found on the start line
  itself is dropped: with differences on lines 0 and 7 of the main view no change is found.
\<close>

lemma first_change_on_line_zero:
  "SCI_MARKERNEXT lineZeroScreen MAIN_VIEW 0 = 0
   \<and> fst (jumpToFirstChange lineZeroScreen True False) = (- 1, - 1)"
  by (simp add: jumpToFirstChange_def jumpToNextChange_def
      nextMarkers_def jumpTarget_def finishJump_def Let_def lineZeroScreen_def
      navScreen_def navWorld_def SCI_GETLINECOUNT_def getOtherViewId_def MAIN_VIEW_def SUB_VIEW_def)

section \<open>Properties of scroll synchronisation\<close>

text \<open>
  Claim C8, as the code has it. \<open>syncViews\<close> scrolls no view but the other one. While
  the bias view's first visible line is a document line before its last one and the two
  first visible lines differ, the other view's first visible line is set to the bias view's,
  clamped to the visible line of the other view's last document line. Once the bias view
  shows its last document line at the top, the other view is scrolled only when the bias
  view's first visible line is the greater one, and then to that line as it is.
\<close>

theorem syncViews_scroll:
  "(\<forall>v l. SCI_SETFIRSTVISIBLELINE v l \<in> set (syncViews e biasView) \<longrightarrow>
       v = getOtherViewId biasView \<and> 0 \<le> l
       \<and> l = (if SCI_DOCLINEFROMVISIBLE e biasView (getFirstVisibleLine e biasView)
                   < SCI_GETLINECOUNT (doc e) biasView - 1
               then min (getFirstVisibleLine e biasView)
                      (SCI_VISIBLEFROMDOCLINE e (getOtherViewId biasView)
                         (SCI_GETLINECOUNT (doc e) (getOtherViewId biasView) - 1))
               else getFirstVisibleLine e biasView))
   \<and> (SCI_DOCLINEFROMVISIBLE e biasView (getFirstVisibleLine e biasView)
         < SCI_GETLINECOUNT (doc e) biasView - 1
       \<and> getFirstVisibleLine e biasView \<noteq> getFirstVisibleLine e (getOtherViewId biasView)
       \<and> 0 \<le> getFirstVisibleLine e biasView
       \<and> 0 \<le> SCI_VISIBLEFROMDOCLINE e (getOtherViewId biasView)
                 (SCI_GETLINECOUNT (doc e) (getOtherViewId biasView) - 1)
       \<longrightarrow> SCI_SETFIRSTVISIBLELINE (getOtherViewId biasView)
             (min (getFirstVisibleLine e biasView)
                (SCI_VISIBLEFROMDOCLINE e (getOtherViewId biasView)
                   (SCI_GETLINECOUNT (doc e) (getOtherViewId biasView) - 1)))
             \<in> set (syncViews e biasView))
   \<and> (\<not> SCI_DOCLINEFROMVISIBLE e biasView (getFirstVisibleLine e biasView)
           < SCI_GETLINECOUNT (doc e) biasView - 1
       \<and> getFirstVisibleLine e biasView > getFirstVisibleLine e (getOtherViewId biasView)
       \<and> 0 \<le> getFirstVisibleLine e biasView
       \<longrightarrow> SCI_SETFIRSTVISIBLELINE (getOtherViewId biasView) (getFirstVisibleLine e biasView)
             \<in> set (syncViews e biasView))
   \<and> (\<not> SCI_DOCLINEFROMVISIBLE e biasView (getFirstVisibleLine e biasView)
           < SCI_GETLINECOUNT (doc e) biasView - 1
       \<and> getFirstVisibleLine e biasView \<le> getFirstVisibleLine e (getOtherViewId biasView)
       \<longrightarrow> (\<forall>v l. SCI_SETFIRSTVISIBLELINE v l \<notin> set (syncViews e biasView)))"
proof -
  define ov where "ov = getOtherViewId biasView"
  define fv where "fv = getFirstVisibleLine e biasView"
  define ofv where "ofv = getFirstVisibleLine e ov"
  define olv where "olv = SCI_VISIBLEFROMDOCLINE e ov (SCI_GETLINECOUNT (doc e) ov - 1)"
  define before where "before \<longleftrightarrow>
    SCI_DOCLINEFROMVISIBLE e biasView fv < SCI_GETLINECOUNT (doc e) biasView - 1"
  have sl: "syncLine e biasView =
      (if before then (if fv \<noteq> ofv then (if fv > olv then olv else fv) else - 1)
       else if fv > ofv then fv else - 1)"
    by (simp add: syncLine_def Let_def ov_def fv_def ofv_def olv_def before_def)
  have ev: "SCI_SETFIRSTVISIBLELINE v l \<in> set (syncViews e biasView)
              \<longleftrightarrow> (0 \<le> syncLine e biasView \<and> v = ov \<and> l = syncLine e biasView)"
    for v l
    by (simp add: syncViews_def Let_def ov_def)
  have 1: "\<forall>v l. SCI_SETFIRSTVISIBLELINE v l \<in> set (syncViews e biasView) \<longrightarrow>
       v = ov \<and> 0 \<le> l \<and> l = (if before then min fv olv else fv)"
    unfolding ev sl by (cases before; cases "fv \<noteq> ofv"; cases "fv > olv"; cases "fv > ofv") auto
  have 2: "before \<and> fv \<noteq> ofv \<and> 0 \<le> fv \<and> 0 \<le> olv
       \<longrightarrow> SCI_SETFIRSTVISIBLELINE ov (min fv olv) \<in> set (syncViews e biasView)"
    unfolding ev sl by (cases "fv > olv") auto
  have 3: "\<not> before \<and> fv > ofv \<and> 0 \<le> fv
       \<longrightarrow> SCI_SETFIRSTVISIBLELINE ov fv \<in> set (syncViews e biasView)"
    unfolding ev sl by auto
  have 4: "\<not> before \<and> fv \<le> ofv
       \<longrightarrow> (\<forall>v l. SCI_SETFIRSTVISIBLELINE v l \<notin> set (syncViews e biasView))"
    unfolding ev sl by auto
  from 1 2 3 4 show ?thesis
    unfolding ov_def fv_def ofv_def olv_def before_def by blast
qed

text \<open>
  The main view at visible line 6, the sub view at 2 with last visible line 4: the sub
  view is set to 4.
\<close>

theorem syncViews_scroll_witness:
  "SCI_DOCLINEFROMVISIBLE scrolledScreen MAIN_VIEW (getFirstVisibleLine scrolledScreen MAIN_VIEW)
     < SCI_GETLINECOUNT (doc scrolledScreen) MAIN_VIEW - 1
   \<and> getFirstVisibleLine scrolledScreen MAIN_VIEW \<noteq> getFirstVisibleLine scrolledScreen SUB_VIEW
   \<and> SCI_SETFIRSTVISIBLELINE SUB_VIEW 4 \<in> set (syncViews scrolledScreen MAIN_VIEW)"
proof -
  have ov: "getOtherViewId MAIN_VIEW = SUB_VIEW"
    by (simp add: getOtherViewId_def)
  have h: "SCI_DOCLINEFROMVISIBLE scrolledScreen MAIN_VIEW (getFirstVisibleLine scrolledScreen MAIN_VIEW)
         < SCI_GETLINECOUNT (doc scrolledScreen) MAIN_VIEW - 1
       \<and> getFirstVisibleLine scrolledScreen MAIN_VIEW
           \<noteq> getFirstVisibleLine scrolledScreen (getOtherViewId MAIN_VIEW)
       \<and> 0 \<le> getFirstVisibleLine scrolledScreen MAIN_VIEW
       \<and> 0 \<le> SCI_VISIBLEFROMDOCLINE scrolledScreen (getOtherViewId MAIN_VIEW)
                 (SCI_GETLINECOUNT (doc scrolledScreen) (getOtherViewId MAIN_VIEW) - 1)"
    unfolding ov
    by (simp add: scrolledScreen_def navScreen_def navWorld_def SCI_GETLINECOUNT_def
        MAIN_VIEW_def SUB_VIEW_def)
  have m: "min (getFirstVisibleLine scrolledScreen MAIN_VIEW)
                (SCI_VISIBLEFROMDOCLINE scrolledScreen SUB_VIEW
                   (SCI_GETLINECOUNT (doc scrolledScreen) SUB_VIEW - 1)) = 4"
    by (simp add: scrolledScreen_def navScreen_def navWorld_def SCI_GETLINECOUNT_def
        MAIN_VIEW_def SUB_VIEW_def)
  from syncViews_scroll[of scrolledScreen MAIN_VIEW, THEN conjunct2, THEN conjunct1, rule_format, OF h]
  have "SCI_SETFIRSTVISIBLELINE SUB_VIEW 4 \<in> set (syncViews scrolledScreen MAIN_VIEW)"
    by (simp only: ov m)
  with h show ?thesis unfolding ov by blast
qed

text \<open>
  The main view scrolled to its last line (visible line 9), the sub view at 2 with last
  visible line 4: the first visible lines differ and the sub view is set to 9, beyond 4.
\<close>

theorem syncViews_unclamped_at_end:
  "getFirstVisibleLine endScreen MAIN_VIEW \<noteq> getFirstVisibleLine endScreen SUB_VIEW
   \<and> SCI_VISIBLEFROMDOCLINE endScreen SUB_VIEW (SCI_GETLINECOUNT (doc endScreen) SUB_VIEW - 1) = 4
   \<and> syncViews endScreen MAIN_VIEW
       = [SCI_SETFIRSTVISIBLELINE SUB_VIEW 9, UpdateWindow SUB_VIEW, NavDlgUpdate]"
  by (simp add: syncViews_def syncLine_def Let_def endScreen_def navScreen_def navWorld_def
      SCI_GETLINECOUNT_def getOtherViewId_def MAIN_VIEW_def SUB_VIEW_def)

end
